theory Spec2Isabelle
  imports Complex_Main "HOL-Library.Word"
begin

unbundle bit_operations_syntax

section \<open>Errors and array indexing\<close>

text \<open>
  The exceptions the modelled code can raise: \<open>IndexError\<close> from indexing an array out
  of range, \<open>ValueError\<close> from allocating an array with a negative dimension or from
  converting a NaN to an integer, \<open>OverflowError\<close> from converting an infinity to an
  integer.
\<close>

datatype error = IndexError | ValueError | OverflowError

text \<open>
  Indexing one axis of length \<open>n\<close> with a Python integer: an index in \<open>[-n, n)\<close> is
  accepted, a negative one counts from the end; anything else raises \<open>IndexError\<close>.
\<close>

definition np_index :: "nat \<Rightarrow> int \<Rightarrow> error + nat" where
  "np_index n i =
     (if i < - int n \<or> int n \<le> i then Inl IndexError
      else Inr (nat (if i < 0 then i + int n else i)))"

text \<open>
  A two-dimensional array is the list of its rows. \<open>getitem2 a y x\<close> is \<open>a[y, x]\<close> and
  \<open>setitem2 a y x v\<close> is \<open>a[y, x] = v\<close>.
\<close>

definition getitem2 :: "'a list list \<Rightarrow> int \<Rightarrow> int \<Rightarrow> error + 'a" where
  "getitem2 a y x =
     (case np_index (length a) y of
        Inl e \<Rightarrow> Inl e
      | Inr r \<Rightarrow>
          (case np_index (length (a ! r)) x of
             Inl e \<Rightarrow> Inl e
           | Inr c \<Rightarrow> Inr (a ! r ! c)))"

definition setitem2 :: "'a list list \<Rightarrow> int \<Rightarrow> int \<Rightarrow> 'a \<Rightarrow> error + 'a list list" where
  "setitem2 a y x v =
     (case np_index (length a) y of
        Inl e \<Rightarrow> Inl e
      | Inr r \<Rightarrow>
          (case np_index (length (a ! r)) x of
             Inl e \<Rightarrow> Inl e
           | Inr c \<Rightarrow> Inr (a[r := (a ! r)[c := v]])))"

section \<open>Cells and mazes (maze.py)\<close>

record Cell =
  cell_x :: int
  cell_y :: int
  cell_left :: bool
  cell_right :: bool
  cell_top :: bool
  cell_bottom :: bool

text \<open>
  \<open>grid\<close> and \<open>visited\<close> (the source's \<open>_visited\<close>) are arrays of shape
  \<open>(height, width)\<close>; the grid holds one unsigned byte per cell.
\<close>

record maze =
  grid :: "8 word list list"
  visited :: "bool list list"
  width :: int
  height :: int

text \<open>
  \<open>Maze.__init__\<close>: the two array allocations raise \<open>ValueError\<close> on a negative
  dimension; there is no other check.
\<close>

definition Maze_init :: "int \<Rightarrow> int \<Rightarrow> error + maze" where
  "Maze_init w h =
     (if h < 0 \<or> w < 0 then Inl ValueError
      else Inr \<lparr>grid = replicate (nat h) (replicate (nat w) 15),
                visited = replicate (nat h) (replicate (nat w) False),
                width = w, height = h\<rparr>)"

text \<open>\<open>Maze.cell_at\<close>: reads \<open>grid[y, x]\<close> and decodes the four wall bits.\<close>

definition cell_at :: "maze \<Rightarrow> int \<Rightarrow> int \<Rightarrow> error + Cell" where
  "cell_at m x y =
     (case getitem2 (grid m) y x of
        Inl e \<Rightarrow> Inl e
      | Inr cell \<Rightarrow>
          Inr \<lparr>cell_x = x, cell_y = y,
               cell_left = (cell AND 2 \<noteq> 0), cell_right = (cell AND 8 \<noteq> 0),
               cell_top = (cell AND 1 \<noteq> 0), cell_bottom = (cell AND 4 \<noteq> 0)\<rparr>)"

text \<open>
  The shape invariant of a maze object: both arrays have \<open>height\<close> rows of \<open>width\<close>
  entries. The constructor establishes it and nothing in the class changes a shape.
\<close>

definition maze_wf :: "maze \<Rightarrow> bool" where
  "maze_wf m \<longleftrightarrow>
     0 \<le> width m \<and> 0 \<le> height m \<and>
     length (grid m) = nat (height m) \<and>
     list_all (\<lambda>r. length r = nat (width m)) (grid m) \<and>
     length (visited m) = nat (height m) \<and>
     list_all (\<lambda>r. length r = nat (width m)) (visited m)"

section \<open>Maze generation (maze.py)\<close>

text \<open>
  The list that \<open>_generate\<close> shuffles: the wall number of each of the four neighbour
  offsets, \<open>list(enumerate([(0, -1), (-1, 0), (0, 1), (1, 0)]))\<close>.
\<close>

definition wall_numbers_and_offsets :: "(nat \<times> int \<times> int) list" where
  "wall_numbers_and_offsets = [(0, 0, - 1), (1, - 1, 0), (2, 0, 1), (3, 1, 0)]"

text \<open>
  Randomness: \<open>random.shuffle\<close> is an oracle. A value \<open>ch\<close> of type \<open>shuffles\<close> fixes the
  outcome of every call, \<open>ch k\<close> being the order in which the \<open>k\<close>-th call of a run leaves
  the list; the number of calls made so far is threaded through the run. An outcome of a
  shuffle is any permutation of the list.
\<close>

type_synonym shuffles = "nat \<Rightarrow> (nat \<times> int \<times> int) list"

definition shuffle_outcomes :: "shuffles \<Rightarrow> bool" where
  "shuffle_outcomes ch \<longleftrightarrow>
     (\<forall>k. distinct (ch k) \<and> set (ch k) = set wall_numbers_and_offsets)"

text \<open>
  \<open>grid[y, x] & ~mask\<close>, stored back into the array of unsigned bytes: the conjunction
  is taken on the integers (the mask is a Python integer and its complement is
  negative), and its value, between 0 and 255, is stored.
\<close>

definition clear_mask :: "8 word \<Rightarrow> int \<Rightarrow> 8 word" where
  "clear_mask c wall_mask = word_of_int (uint c AND NOT wall_mask)"

text \<open>
  \<open>Maze._generate\<close> and its \<open>for\<close> loop over the shuffled list. The second argument
  bounds the depth of the recursion: \<open>None\<close> means that the bound was reached.
\<close>

fun generate_rec :: "shuffles \<Rightarrow> nat \<Rightarrow> nat \<times> maze \<Rightarrow> int \<Rightarrow> int \<Rightarrow>
    (error + nat \<times> maze) option"
  and generate_loop :: "shuffles \<Rightarrow> nat \<Rightarrow> (nat \<times> int \<times> int) list \<Rightarrow> nat \<times> maze \<Rightarrow>
    int \<Rightarrow> int \<Rightarrow> (error + nat \<times> maze) option" where
  "generate_rec ch 0 s x y = None"
| "generate_rec ch (Suc n) (k, m) x y =
     (case setitem2 (visited m) y x True of
        Inl e \<Rightarrow> Some (Inl e)
      | Inr vis \<Rightarrow> generate_loop ch n (ch k) (Suc k, m\<lparr>visited := vis\<rparr>) x y)"
| "generate_loop ch n [] s x y = Some (Inr s)"
| "generate_loop ch n ((w, dx, dy) # rest) (k, m) x y =
     (let i = x + dx; j = y + dy in
      if i < 0 \<or> i \<ge> width m \<or> j < 0 \<or> j \<ge> height m
      then generate_loop ch n rest (k, m) x y
      else
        (case getitem2 (visited m) j i of
           Inl e \<Rightarrow> Some (Inl e)
         | Inr True \<Rightarrow> generate_loop ch n rest (k, m) x y
         | Inr False \<Rightarrow>
             (let wall_mask = push_bit w (1 :: int);
                  opposite_wall_mask =
                    (if wall_mask \<ge> 4 then drop_bit 2 wall_mask else push_bit 2 wall_mask)
              in case getitem2 (grid m) y x of
                   Inl e \<Rightarrow> Some (Inl e)
                 | Inr c \<Rightarrow>
                     (case setitem2 (grid m) y x (clear_mask c wall_mask) of
                        Inl e \<Rightarrow> Some (Inl e)
                      | Inr g \<Rightarrow>
                          (case getitem2 g j i of
                             Inl e \<Rightarrow> Some (Inl e)
                           | Inr c' \<Rightarrow>
                               (case setitem2 g j i (clear_mask c' opposite_wall_mask) of
                                  Inl e \<Rightarrow> Some (Inl e)
                                | Inr g' \<Rightarrow>
                                    (case generate_rec ch n (k, m\<lparr>grid := g'\<rparr>) i j of
                                       None \<Rightarrow> None
                                     | Some (Inl e) \<Rightarrow> Some (Inl e)
                                     | Some (Inr s') \<Rightarrow>
                                         generate_loop ch n rest s' x y)))))))"

text \<open>
  \<open>Maze.generate\<close>: resets both arrays and starts the traversal at the cell (0, 0).
\<close>

definition generate :: "shuffles \<Rightarrow> nat \<Rightarrow> nat \<times> maze \<Rightarrow> (error + nat \<times> maze) option" where
  "generate ch fuel s =
     (case s of
        (k, m) \<Rightarrow>
          generate_rec ch fuel
            (k, m\<lparr>grid := map (map (\<lambda>_. 15)) (grid m),
                  visited := map (map (\<lambda>_. False)) (visited m)\<rparr>) 0 0)"

section \<open>Mazes as graphs\<close>

text \<open>
  The cells of a maze are the pairs \<open>(x, y)\<close> inside the grid. There is a passage
  between two adjacent cells when the wall between them is cleared, that is, when
  \<open>cell_at\<close> reports no wall on either of the two facing sides.
\<close>

definition in_grid :: "maze \<Rightarrow> int \<times> int \<Rightarrow> bool" where
  "in_grid m c \<longleftrightarrow> 0 \<le> fst c \<and> fst c < width m \<and> 0 \<le> snd c \<and> snd c < height m"

definition passage :: "maze \<Rightarrow> int \<times> int \<Rightarrow> int \<times> int \<Rightarrow> bool" where
  "passage m a b \<longleftrightarrow>
     in_grid m a \<and> in_grid m b \<and>
     (case (cell_at m (fst a) (snd a), cell_at m (fst b) (snd b)) of
        (Inr ca, Inr cb) \<Rightarrow>
          b = (fst a + 1, snd a) \<and> \<not> cell_right ca \<and> \<not> cell_left cb \<or>
          b = (fst a - 1, snd a) \<and> \<not> cell_left ca \<and> \<not> cell_right cb \<or>
          b = (fst a, snd a + 1) \<and> \<not> cell_bottom ca \<and> \<not> cell_top cb \<or>
          b = (fst a, snd a - 1) \<and> \<not> cell_top ca \<and> \<not> cell_bottom cb
      | _ \<Rightarrow> False)"

definition passages :: "maze \<Rightarrow> ((int \<times> int) \<times> (int \<times> int)) set" where
  "passages m = {(a, b). passage m a b}"

text \<open>
  The cleared wall-pairs: every passage counted once, from the left cell to the right one
  or from the upper cell to the lower one.
\<close>

definition cleared_wall_pairs :: "maze \<Rightarrow> ((int \<times> int) \<times> (int \<times> int)) set" where
  "cleared_wall_pairs m =
     {(a, b). passage m a b \<and> (b = (fst a + 1, snd a) \<or> b = (fst a, snd a + 1))}"

text \<open>
  A path is a non-empty list of vertices in which every vertex is joined to the next one;
  it is simple when no vertex occurs twice.
\<close>

fun path :: "('a \<times> 'a) set \<Rightarrow> 'a list \<Rightarrow> bool" where
  "path E [] = False"
| "path E [v] = True"
| "path E (u # v # p) = ((u, v) \<in> E \<and> path E (v # p))"

definition simple_path :: "('a \<times> 'a) set \<Rightarrow> 'a \<Rightarrow> 'a \<Rightarrow> 'a list \<Rightarrow> bool" where
  "simple_path E a b p \<longleftrightarrow> path E p \<and> hd p = a \<and> last p = b \<and> distinct p"

text \<open>
  A maze is a spanning tree of its grid when \<open>width * height - 1\<close> wall-pairs are cleared
  and any two cells are joined by exactly one simple path.
\<close>

definition spanning_tree :: "maze \<Rightarrow> bool" where
  "spanning_tree m \<longleftrightarrow>
     int (card (cleared_wall_pairs m)) = width m * height m - 1 \<and>
     (\<forall>a b. in_grid m a \<longrightarrow> in_grid m b \<longrightarrow> (\<exists>!p. simple_path (passages m) a b p))"

text \<open>
  Wall symmetry: two horizontally or vertically adjacent cells report the same flag for
  the wall between them.
\<close>

definition wall_symmetry :: "maze \<Rightarrow> bool" where
  "wall_symmetry m \<longleftrightarrow>
     (\<forall>x y. in_grid m (x, y) \<longrightarrow> in_grid m (x + 1, y) \<longrightarrow>
        (\<exists>a b. cell_at m x y = Inr a \<and> cell_at m (x + 1) y = Inr b \<and>
               cell_right a = cell_left b)) \<and>
     (\<forall>x y. in_grid m (x, y) \<longrightarrow> in_grid m (x, y + 1) \<longrightarrow>
        (\<exists>a b. cell_at m x y = Inr a \<and> cell_at m x (y + 1) = Inr b \<and>
               cell_bottom a = cell_top b))"

text \<open>
  The maze objects that a program can hold: the constructor returns one, and
  \<open>generate\<close>, when it returns, turns one into another.
\<close>

inductive maze_object :: "maze \<Rightarrow> bool" where
  constructed: "Maze_init w h = Inr m \<Longrightarrow> maze_object m"
| generated: "maze_object m \<Longrightarrow> shuffle_outcomes ch \<Longrightarrow>
     generate ch fuel (k, m) = Some (Inr (k', m')) \<Longrightarrow> maze_object m'"

subsection \<open>The state of a traversal, abstractly\<close>

text \<open>
  Trees built by adding one leaf at a time; every edge is kept in both directions.
\<close>

inductive is_tree :: "'a set \<Rightarrow> ('a \<times> 'a) set \<Rightarrow> bool" where
  single: "is_tree {v} {}"
| extend: "is_tree V E \<Longrightarrow> u \<in> V \<Longrightarrow> v \<notin> V \<Longrightarrow>
     is_tree (insert v V) (insert (u, v) (insert (v, u) E))"

text \<open>
  The byte and the visited mark of a cell, the neighbour of a cell across the wall with
  number \<open>w\<close>, and the number of the same wall seen from that neighbour.
\<close>

definition mask_at :: "maze \<Rightarrow> int \<times> int \<Rightarrow> 8 word" where
  "mask_at m c = grid m ! nat (snd c) ! nat (fst c)"

definition vis_at :: "maze \<Rightarrow> int \<times> int \<Rightarrow> bool" where
  "vis_at m c = visited m ! nat (snd c) ! nat (fst c)"

definition neighbour :: "nat \<Rightarrow> int \<times> int \<Rightarrow> int \<times> int" where
  "neighbour w c =
     (fst c + fst (snd (wall_numbers_and_offsets ! w)),
      snd c + snd (snd (wall_numbers_and_offsets ! w)))"

definition opposite :: "nat \<Rightarrow> nat" where
  "opposite w = (w + 2) mod 4"

definition visited_cells :: "maze \<Rightarrow> (int \<times> int) set" where
  "visited_cells m = {c. in_grid m c \<and> vis_at m c}"

definition unvisited_cells :: "maze \<Rightarrow> (int \<times> int) set" where
  "unvisited_cells m = {c. in_grid m c \<and> \<not> vis_at m c}"

definition edges :: "maze \<Rightarrow> ((int \<times> int) \<times> (int \<times> int)) set" where
  "edges m =
     {(c, c'). in_grid m c \<and> in_grid m c' \<and>
        (\<exists>w<4. c' = neighbour w c \<and> \<not> bit (mask_at m c) w)}"

text \<open>
  The invariant of the wall bits: a wall between two cells has the same bit on both sides,
  and a wall on the edge of the grid is present.
\<close>

definition walls_ok :: "maze \<Rightarrow> bool" where
  "walls_ok m \<longleftrightarrow>
     (\<forall>c w. in_grid m c \<longrightarrow> w < 4 \<longrightarrow>
        (if in_grid m (neighbour w c)
         then bit (mask_at m c) w = bit (mask_at m (neighbour w c)) (opposite w)
         else bit (mask_at m c) w))"

text \<open>
  What a traversal started in state \<open>m\<close> has achieved in state \<open>m'\<close>: the shape is
  kept, the walls are consistent, no mark is lost, the passages form a tree on the visited
  cells, and every cell visited since \<open>m\<close> has all its neighbours visited.
\<close>

definition traversed :: "maze \<Rightarrow> maze \<Rightarrow> bool" where
  "traversed m m' \<longleftrightarrow>
     maze_wf m' \<and> width m' = width m \<and> height m' = height m \<and> walls_ok m' \<and>
     visited_cells m \<subseteq> visited_cells m' \<and>
     is_tree (visited_cells m') (edges m') \<and>
     (\<forall>c \<in> visited_cells m' - visited_cells m. \<forall>w<4.
        in_grid m (neighbour w c) \<longrightarrow> neighbour w c \<in> visited_cells m')"

subsection \<open>The steps of a traversal\<close>

text \<open>
  The maze after \<open>_visited[y, x] = True\<close>, after one byte of the grid is written, after
  the wall with number \<open>w\<close> between a cell and its neighbour is cleared on both sides, and
  after the reset at the start of \<open>generate\<close>.
\<close>

definition mark :: "maze \<Rightarrow> int \<times> int \<Rightarrow> maze" where
  "mark m c =
     m\<lparr>visited := (visited m)[nat (snd c) := (visited m ! nat (snd c))[nat (fst c) := True]]\<rparr>"

definition set_mask :: "maze \<Rightarrow> int \<times> int \<Rightarrow> 8 word \<Rightarrow> maze" where
  "set_mask m c v =
     m\<lparr>grid := (grid m)[nat (snd c) := (grid m ! nat (snd c))[nat (fst c) := v]]\<rparr>"

definition carve :: "maze \<Rightarrow> int \<times> int \<Rightarrow> nat \<Rightarrow> maze" where
  "carve m c w =
     (let m1 = set_mask m c (clear_mask (mask_at m c) (push_bit w 1))
      in set_mask m1 (neighbour w c)
           (clear_mask (mask_at m1 (neighbour w c)) (push_bit (opposite w) 1)))"

definition reset :: "maze \<Rightarrow> maze" where
  "reset m = m\<lparr>grid := map (map (\<lambda>_. 15)) (grid m),
               visited := map (map (\<lambda>_. False)) (visited m)\<rparr>"

text \<open>
  What is proved of a call of \<open>_generate\<close> on an unvisited cell and of its loop: with a
  bound on the depth of at least the number of unvisited cells the call returns, and
  whenever it returns it has raised nothing and has completed a traversal; the loop has,
  in addition, visited every neighbour in its list.
\<close>

definition rec_post :: "shuffles \<Rightarrow> nat \<Rightarrow> nat \<Rightarrow> maze \<Rightarrow> int \<Rightarrow> int \<Rightarrow> bool" where
  "rec_post ch n k m x y \<longleftrightarrow>
     (card (unvisited_cells m) \<le> n \<longrightarrow> generate_rec ch n (k, m) x y \<noteq> None) \<and>
     (\<forall>r. generate_rec ch n (k, m) x y = Some r \<longrightarrow>
        (\<exists>k' m'. r = Inr (k', m') \<and> traversed m m' \<and> (x, y) \<in> visited_cells m'))"

definition loop_post ::
    "shuffles \<Rightarrow> nat \<Rightarrow> (nat \<times> int \<times> int) list \<Rightarrow> nat \<Rightarrow> maze \<Rightarrow> int \<Rightarrow> int \<Rightarrow> bool" where
  "loop_post ch n rest k m x y \<longleftrightarrow>
     (card (unvisited_cells m) \<le> n \<longrightarrow> generate_loop ch n rest (k, m) x y \<noteq> None) \<and>
     (\<forall>r. generate_loop ch n rest (k, m) x y = Some r \<longrightarrow>
        (\<exists>k' m'. r = Inr (k', m') \<and> traversed m m' \<and>
           (\<forall>(w, dx, dy) \<in> set rest.
              in_grid m (x + dx, y + dy) \<longrightarrow> (x + dx, y + dy) \<in> visited_cells m')))"

definition rec_ok :: "shuffles \<Rightarrow> nat \<Rightarrow> bool" where
  "rec_ok ch n \<longleftrightarrow>
     (\<forall>k m x y. maze_wf m \<longrightarrow> walls_ok m \<longrightarrow> in_grid m (x, y) \<longrightarrow>
        (x, y) \<notin> visited_cells m \<longrightarrow>
        is_tree (insert (x, y) (visited_cells m)) (edges m) \<longrightarrow> rec_post ch n k m x y)"

section \<open>The player and the game (game.py)\<close>

text \<open>
  Python floats are modelled as real numbers: positions, sizes, velocities and \<open>dt\<close> are
  finite, and rounding is not modelled.
\<close>

record Player =
  player_x :: real
  player_y :: real
  x_velocity :: real
  y_velocity :: real
  player_width :: real
  player_height :: real

definition center :: "Player \<Rightarrow> real \<times> real" where
  "center p = (player_x p + player_width p / 2, player_y p + player_height p / 2)"

definition Player_update :: "Player \<Rightarrow> real \<Rightarrow> Player" where
  "Player_update p dt =
     p\<lparr>player_x := player_x p + x_velocity p * dt,
       player_y := player_y p + y_velocity p * dt\<rparr>"

record Game =
  game_maze :: maze
  player :: Player
  player_move_speed :: real

text \<open>\<open>astype(np.int32)\<close> on a float in range: truncation towards zero.\<close>

definition astype_int32 :: "real \<Rightarrow> int" where
  "astype_int32 r = (if 0 \<le> r then \<lfloor>r\<rfloor> else \<lceil>r\<rceil>)"

definition current_cell :: "Game \<Rightarrow> error + Cell" where
  "current_cell g =
     cell_at (game_maze g) (astype_int32 (fst (center (player g))))
       (astype_int32 (snd (center (player g))))"

text \<open>
  \<open>Game.update\<close>. The only statement that can raise is the first one, the cell query,
  which runs before the player is moved.
\<close>

definition Game_update :: "Game \<Rightarrow> real \<Rightarrow> error + Game" where
  "Game_update g dt =
     (case current_cell g of
        Inl e \<Rightarrow> Inl e
      | Inr last_cell \<Rightarrow>
          (let p = Player_update (player g) dt;
               p = (if cell_left last_cell \<and> player_x p < of_int (cell_x last_cell)
                    then p\<lparr>player_x := of_int (cell_x last_cell)\<rparr>
                    else if cell_right last_cell \<and>
                            player_x p + player_width p \<ge> of_int (cell_x last_cell + 1)
                    then p\<lparr>player_x := of_int (cell_x last_cell + 1) - player_width p\<rparr>
                    else p);
               p = (if cell_top last_cell \<and> player_y p < of_int (cell_y last_cell)
                    then p\<lparr>player_y := of_int (cell_y last_cell)\<rparr>
                    else if cell_bottom last_cell \<and>
                            player_y p + player_height p \<ge> of_int (cell_y last_cell + 1)
                    then p\<lparr>player_y := of_int (cell_y last_cell + 1) - player_height p\<rparr>
                    else p)
           in Inr (g\<lparr>player := p\<rparr>)))"

text \<open>The player's rectangle lies inside the unit square.\<close>

definition in_unit_square :: "Player \<Rightarrow> bool" where
  "in_unit_square p \<longleftrightarrow>
     0 \<le> player_x p \<and> player_x p + player_width p \<le> 1 \<and>
     0 \<le> player_y p \<and> player_y p + player_height p \<le> 1"

section \<open>Ray casting (ray\_casting.py)\<close>

text \<open>
  The ray caster computes with \<open>float('inf')\<close>, so its floats are the real numbers
  extended by the two infinities and NaN, with the arithmetic and comparisons of IEEE 754
  on these. Rounding of finite values is not modelled.
\<close>

datatype pyfloat = Finite real | PosInf | NegInf | NaN

fun isfinite :: "pyfloat \<Rightarrow> bool" where
  "isfinite (Finite r) = True"
| "isfinite _ = False"

fun fadd :: "pyfloat \<Rightarrow> pyfloat \<Rightarrow> pyfloat" where
  "fadd NaN _ = NaN"
| "fadd _ NaN = NaN"
| "fadd (Finite a) (Finite b) = Finite (a + b)"
| "fadd PosInf NegInf = NaN"
| "fadd NegInf PosInf = NaN"
| "fadd PosInf _ = PosInf"
| "fadd _ PosInf = PosInf"
| "fadd NegInf _ = NegInf"
| "fadd _ NegInf = NegInf"

fun fmul :: "pyfloat \<Rightarrow> pyfloat \<Rightarrow> pyfloat" where
  "fmul NaN _ = NaN"
| "fmul _ NaN = NaN"
| "fmul (Finite a) (Finite b) = Finite (a * b)"
| "fmul (Finite a) PosInf = (if a = 0 then NaN else if 0 < a then PosInf else NegInf)"
| "fmul (Finite a) NegInf = (if a = 0 then NaN else if 0 < a then NegInf else PosInf)"
| "fmul PosInf (Finite b) = (if b = 0 then NaN else if 0 < b then PosInf else NegInf)"
| "fmul NegInf (Finite b) = (if b = 0 then NaN else if 0 < b then NegInf else PosInf)"
| "fmul PosInf PosInf = PosInf"
| "fmul PosInf NegInf = NegInf"
| "fmul NegInf PosInf = NegInf"
| "fmul NegInf NegInf = PosInf"

text \<open>The comparison \<open>a <= b\<close>; every comparison with NaN is false.\<close>

fun fle :: "pyfloat \<Rightarrow> pyfloat \<Rightarrow> bool" where
  "fle NaN _ = False"
| "fle _ NaN = False"
| "fle NegInf _ = True"
| "fle _ PosInf = True"
| "fle (Finite a) (Finite b) = (a \<le> b)"
| "fle PosInf _ = False"
| "fle _ NegInf = False"

text \<open>
  \<open>math.floor\<close> and \<open>round\<close> of a float give a Python integer; they raise
  \<open>OverflowError\<close> on an infinity and \<open>ValueError\<close> on NaN. \<open>round\<close> rounds a tie
  to the even neighbour.
\<close>

fun py_floor :: "pyfloat \<Rightarrow> error + int" where
  "py_floor (Finite r) = Inr \<lfloor>r\<rfloor>"
| "py_floor NaN = Inl ValueError"
| "py_floor _ = Inl OverflowError"

definition round_half_even :: "real \<Rightarrow> int" where
  "round_half_even r =
     (if frac r < 1/2 then \<lfloor>r\<rfloor>
      else if 1/2 < frac r then \<lfloor>r\<rfloor> + 1
      else if even \<lfloor>r\<rfloor> then \<lfloor>r\<rfloor> else \<lfloor>r\<rfloor> + 1)"

fun py_round :: "pyfloat \<Rightarrow> error + int" where
  "py_round (Finite r) = Inr (round_half_even r)"
| "py_round NaN = Inl ValueError"
| "py_round _ = Inl OverflowError"

text \<open>
  The loop condition \<open>np.all(signs * next_h_intersection <= signs * next_v_intersection)\<close>:
  the horizontal crossing is taken when it is not behind the vertical one on both axes.
\<close>

definition h_first :: "int \<Rightarrow> int \<Rightarrow> pyfloat \<times> pyfloat \<Rightarrow> pyfloat \<times> pyfloat \<Rightarrow> bool" where
  "h_first x_sign y_sign h v \<longleftrightarrow>
     fle (fmul (Finite (of_int x_sign)) (fst h)) (fmul (Finite (of_int x_sign)) (fst v)) \<and>
     fle (fmul (Finite (of_int y_sign)) (snd h)) (fmul (Finite (of_int y_sign)) (snd v))"

text \<open>
  The bound test of both branches,
  \<open>intersection[0] >= maze.width or intersection[1] >= maze.width\<close>.
\<close>

definition beyond_width :: "maze \<Rightarrow> pyfloat \<times> pyfloat \<Rightarrow> bool" where
  "beyond_width m p \<longleftrightarrow>
     fle (Finite (of_int (width m))) (fst p) \<or> fle (Finite (of_int (width m))) (snd p)"

text \<open>
  The \<open>while True\<close> loop. The first argument bounds the number of iterations, that is,
  of grid-line crossings examined; \<open>None\<close> means that the loop has not returned within
  that many.
\<close>

fun ray_loop :: "nat \<Rightarrow> maze \<Rightarrow> int \<Rightarrow> int \<Rightarrow> pyfloat \<Rightarrow> pyfloat \<Rightarrow>
    pyfloat \<times> pyfloat \<Rightarrow> pyfloat \<times> pyfloat \<Rightarrow> (error + pyfloat \<times> pyfloat) option" where
  "ray_loop 0 m x_sign y_sign x_inc y_inc next_h next_v = None"
| "ray_loop (Suc n) m x_sign y_sign x_inc y_inc next_h next_v =
     (if h_first x_sign y_sign next_h next_v then
        (let intersection = next_h in
         if beyond_width m intersection then Some (Inr intersection)
         else
           (case py_floor (fst intersection) of
              Inl e \<Rightarrow> Some (Inl e)
            | Inr i \<Rightarrow>
                (case py_round (snd intersection) of
                   Inl e \<Rightarrow> Some (Inl e)
                 | Inr j \<Rightarrow>
                     (case cell_at m i j of
                        Inl e \<Rightarrow> Some (Inl e)
                      | Inr c \<Rightarrow>
                          if cell_top c then Some (Inr intersection)
                          else ray_loop n m x_sign y_sign x_inc y_inc
                                 (fadd (fst intersection) x_inc,
                                  fadd (snd intersection) (Finite (of_int y_sign)))
                                 next_v))))
      else
        (let intersection = next_v in
         if beyond_width m intersection then Some (Inr intersection)
         else
           (case py_round (fst intersection) of
              Inl e \<Rightarrow> Some (Inl e)
            | Inr i \<Rightarrow>
                (case py_floor (snd intersection) of
                   Inl e \<Rightarrow> Some (Inl e)
                 | Inr j \<Rightarrow>
                     (case cell_at m i j of
                        Inl e \<Rightarrow> Some (Inl e)
                      | Inr c \<Rightarrow>
                          if cell_left c then Some (Inr intersection)
                          else ray_loop n m x_sign y_sign x_inc y_inc next_h
                                 (fadd (fst intersection) (Finite (of_int x_sign)),
                                  fadd (snd intersection) y_inc))))))"

text \<open>
  \<open>ray_cast\<close>, with the bound on the loop as first argument. \<open>y % 1\<close> on a finite
  float is the fractional part \<open>frac y\<close>.
\<close>

definition ray_cast :: "nat \<Rightarrow> real \<Rightarrow> real \<Rightarrow> real \<Rightarrow> real \<Rightarrow> maze \<Rightarrow>
    (error + pyfloat \<times> pyfloat) option" where
  "ray_cast fuel x y dx dy m =
     (let x_sign = (if 0 < dx then 1 else - 1 :: int);
          y_sign = (if 0 < dy then 1 else - 1 :: int);
          x_inc = (if dy \<noteq> 0 then Finite (dx / \<bar>dy\<bar>) else PosInf);
          y_inc = (if dx \<noteq> 0 then Finite (dy / \<bar>dx\<bar>) else PosInf);
          next_h = (if 0 < y_sign
                    then (fadd (Finite x) (fmul x_inc (Finite (1 - frac y))),
                          Finite (of_int \<lceil>y\<rceil>))
                    else (fadd (Finite x) (fmul x_inc (Finite (frac y))),
                          Finite (of_int \<lfloor>y\<rfloor>)));
          next_v = (if 0 < x_sign
                    then (Finite (of_int \<lceil>x\<rceil>),
                          fadd (Finite y) (fmul y_inc (Finite (1 - frac x))))
                    else (Finite (of_int \<lfloor>x\<rfloor>),
                          fadd (Finite y) (fmul y_inc (Finite (frac x)))));
          infs = (fmul (Finite (of_int x_sign)) PosInf, fmul (Finite (of_int y_sign)) PosInf);
          next_h = (if \<not> (isfinite (fst next_h) \<and> isfinite (snd next_h)) then infs
                    else next_h);
          next_v = (if \<not> (isfinite (fst next_v) \<and> isfinite (snd next_v)) then infs
                    else next_v)
      in ray_loop fuel m x_sign y_sign x_inc y_inc next_h next_v)"

text \<open>The maze that \<open>Maze(2, 1)\<close> constructs.\<close>

definition wide_maze :: maze where
  "wide_maze = \<lparr>grid = [[15, 15]], visited = [[False, False]], width = 2, height = 1\<rparr>"

text \<open>The maze that \<open>Maze(2, 2)\<close> constructs.\<close>

definition square_maze :: maze where
  "square_maze =
     \<lparr>grid = [[15, 15], [15, 15]], visited = [[False, False], [False, False]],
      width = 2, height = 2\<rparr>"

text \<open>
  The maze that \<open>Maze(2, 1).generate()\<close> leaves, and the shuffle that leaves every list
  in its order.
\<close>

definition wide_maze_generated :: maze where
  "wide_maze_generated =
     \<lparr>grid = [[7, 13]], visited = [[True, True]], width = 2, height = 1\<rparr>"

definition no_shuffle :: shuffles where
  "no_shuffle k = wall_numbers_and_offsets"

text \<open>
  Example objects: the maze that \<open>Maze(1, 1)\<close> constructs, and a game in it whose
  player is the 0.5 by 0.5 square at (0.25, 0.25), moving right and up at speed 5.
\<close>

definition unit_maze :: maze where
  "unit_maze = \<lparr>grid = [[15]], visited = [[False]], width = 1, height = 1\<rparr>"

definition unit_game :: Game where
  "unit_game =
     \<lparr>game_maze = unit_maze,
      player = \<lparr>player_x = 1/4, player_y = 1/4, x_velocity = 5, y_velocity = - 5,
                player_width = 1/2, player_height = 1/2\<rparr>,
      player_move_speed = 5\<rparr>"

section \<open>Basic facts about indexing\<close>

lemma np_index_Inr:
  "- int n \<le> i \<Longrightarrow> i < int n \<Longrightarrow> np_index n i = Inr (nat (i mod int n))"
proof (cases "i < 0")
  case True
  assume "- int n \<le> i"
  have "i mod int n = (i + int n) mod int n"
    by simp
  also from True \<open>- int n \<le> i\<close> have "\<dots> = i + int n"
    by (intro mod_pos_pos_trivial) auto
  finally have "i mod int n = i + int n" .
  with True \<open>- int n \<le> i\<close> show ?thesis
    by (simp add: np_index_def)
next
  case False
  assume "i < int n"
  with False show ?thesis
    by (simp add: np_index_def)
qed

lemma np_index_Inl:
  "i < - int n \<or> int n \<le> i \<Longrightarrow> np_index n i = Inl IndexError"
  by (simp add: np_index_def)

lemma np_index_nonneg:
  "0 \<le> i \<Longrightarrow> i < int n \<Longrightarrow> np_index n i = Inr (nat i)"
  by (simp add: np_index_def)

lemma np_index_error: "np_index n i = Inl e \<Longrightarrow> e = IndexError"
  by (simp add: np_index_def split: if_splits)

lemma np_index_bound: "np_index n i = Inr r \<Longrightarrow> r < n"
  by (auto simp: np_index_def split: if_splits)

lemma maze_wf_grid_row:
  "maze_wf m \<Longrightarrow> r < nat (height m) \<Longrightarrow> length (grid m ! r) = nat (width m)"
  by (simp add: maze_wf_def list_all_length)

lemma maze_wf_visited_row:
  "maze_wf m \<Longrightarrow> r < nat (height m) \<Longrightarrow> length (visited m ! r) = nat (width m)"
  by (simp add: maze_wf_def list_all_length)

lemma Maze_init_wf: "Maze_init w h = Inr m \<Longrightarrow> maze_wf m \<and> width m = w \<and> height m = h"
  by (auto simp: Maze_init_def maze_wf_def list_all_length split: if_splits)

lemma getitem2_grid_wrap:
  assumes "maze_wf m"
    and "- width m \<le> x" "x < width m" "- height m \<le> y" "y < height m"
  shows "getitem2 (grid m) y x =
           Inr (grid m ! nat (y mod height m) ! nat (x mod width m))"
proof -
  from assms have h: "int (length (grid m)) = height m"
    by (simp add: maze_wf_def)
  with assms have r: "np_index (length (grid m)) y = Inr (nat (y mod height m))"
    using np_index_Inr [of "length (grid m)" y] by simp
  from assms have "0 \<le> y mod height m" "y mod height m < height m"
    by simp_all
  then have "nat (y mod height m) < nat (height m)"
    by simp
  with assms have "int (length (grid m ! nat (y mod height m))) = width m"
    by (simp add: maze_wf_grid_row maze_wf_def)
  with assms have "np_index (length (grid m ! nat (y mod height m))) x = Inr (nat (x mod width m))"
    using np_index_Inr [of "length (grid m ! nat (y mod height m))" x] by simp
  with r show ?thesis
    by (simp add: getitem2_def)
qed

lemma getitem2_grid_out:
  assumes "maze_wf m"
    and "x < - width m \<or> width m \<le> x \<or> y < - height m \<or> height m \<le> y"
  shows "getitem2 (grid m) y x = Inl IndexError"
proof (cases "y < - height m \<or> height m \<le> y")
  case True
  with assms have "np_index (length (grid m)) y = Inl IndexError"
    by (intro np_index_Inl) (simp add: maze_wf_def)
  then show ?thesis
    by (simp add: getitem2_def)
next
  case False
  with assms have x: "x < - width m \<or> width m \<le> x"
    by auto
  show ?thesis
  proof (cases "np_index (length (grid m)) y")
    case (Inl e)
    then show ?thesis
      by (simp add: getitem2_def np_index_error)
  next
    case (Inr r)
    with assms have "r < nat (height m)"
      using np_index_bound [of "length (grid m)" y r] by (simp add: maze_wf_def)
    with assms have "int (length (grid m ! r)) = width m"
      by (simp add: maze_wf_grid_row maze_wf_def)
    with x have "np_index (length (grid m ! r)) x = Inl IndexError"
      by (intro np_index_Inl) simp
    with Inr show ?thesis
      by (simp add: getitem2_def)
  qed
qed

lemma cell_at_outside:
  assumes "maze_wf m"
    and "x < - width m \<or> width m \<le> x \<or> y < - height m \<or> height m \<le> y"
  shows "cell_at m x y = Inl IndexError"
  using assms by (simp add: cell_at_def getitem2_grid_out)

section \<open>Construction and cell queries\<close>

text \<open>
  Claim C9, as the code has it: constructing a maze with zero width or zero height
  raises nothing. The constructor returns a maze object of that size whose grid holds no
  cell, so that every later \<open>cell_at\<close> query fails with \<open>IndexError\<close>.
\<close>

theorem Maze_init_zero_size:
  assumes "0 \<le> w" "0 \<le> h" "w = 0 \<or> h = 0"
  shows "\<exists>m. Maze_init w h = Inr m \<and> maze_wf m \<and> width m = w \<and> height m = h \<and>
             (\<forall>x y. cell_at m x y = Inl IndexError)"
proof -
  from assms obtain m where m: "Maze_init w h = Inr m"
    by (auto simp: Maze_init_def)
  then have wf: "maze_wf m" "width m = w" "height m = h"
    by (simp_all add: Maze_init_wf)
  have "cell_at m x y = Inl IndexError" for x y
  proof -
    from assms wf have "x < - width m \<or> width m \<le> x \<or> y < - height m \<or> height m \<le> y"
      by auto
    with wf show ?thesis
      by (simp add: cell_at_def getitem2_grid_out)
  qed
  with m wf show ?thesis
    by blast
qed

theorem Maze_init_zero_size_witness:
  "(0::int) \<le> 0 \<and> (0::int) \<le> 3 \<and>
   (\<exists>m. Maze_init 0 3 = Inr m \<and> maze_wf m \<and> width m = 0 \<and> height m = 3 \<and>
        (\<forall>x y. cell_at m x y = Inl IndexError))"
  using Maze_init_zero_size [of 0 3] by simp

text \<open>
  The constructor at width 0 and height 0, and at width 0 and height 3: both calls return
  a maze object; neither raises.
\<close>

theorem Maze_init_zero_counterexample:
  "Maze_init 0 0 = Inr \<lparr>grid = [], visited = [], width = 0, height = 0\<rparr> \<and>
   Maze_init 0 3 = Inr \<lparr>grid = [[], [], []], visited = [[], [], []], width = 0, height = 3\<rparr>"
  by (simp add: Maze_init_def numeral_3_eq_3)

text \<open>
  Claim C5, as the code has it: \<open>cell_at\<close> fails, with \<open>IndexError\<close>, exactly when
  \<open>x\<close> is outside \<open>[-width, width)\<close> or \<open>y\<close> is outside \<open>[-height, height)\<close>. A negative
  coordinate inside these ranges does not fail.
\<close>

theorem cell_at_error_range:
  assumes "maze_wf m"
  shows "(x < - width m \<or> width m \<le> x \<or> y < - height m \<or> height m \<le> y
            \<longrightarrow> cell_at m x y = Inl IndexError) \<and>
         (- width m \<le> x \<and> x < width m \<and> - height m \<le> y \<and> y < height m
            \<longrightarrow> (\<exists>c. cell_at m x y = Inr c \<and> cell_x c = x \<and> cell_y c = y))"
  using assms by (simp add: cell_at_def getitem2_grid_out getitem2_grid_wrap)

theorem cell_at_error_range_witness:
  "maze_wf \<lparr>grid = [[15, 15]], visited = [[False, False]], width = 2, height = 1\<rparr> \<and>
   cell_at \<lparr>grid = [[15, 15]], visited = [[False, False]], width = 2, height = 1\<rparr> 2 0
     = Inl IndexError \<and>
   cell_at \<lparr>grid = [[15, 15]], visited = [[False, False]], width = 2, height = 1\<rparr> (- 3) 0
     = Inl IndexError \<and>
   (\<exists>c. cell_at \<lparr>grid = [[15, 15]], visited = [[False, False]], width = 2, height = 1\<rparr>
           (- 2) (- 1) = Inr c \<and> cell_x c = - 2 \<and> cell_y c = - 1)"
proof -
  let ?m = "\<lparr>grid = [[15, 15]], visited = [[False, False]], width = 2, height = 1\<rparr>"
  have wf: "maze_wf ?m"
    by (simp add: maze_wf_def)
  from cell_at_error_range [OF wf, of 2 0] cell_at_error_range [OF wf, of "- 3" 0]
    cell_at_error_range [OF wf, of "- 2" "- 1"] wf
  show ?thesis
    by simp
qed

text \<open>
  In the maze that \<open>Maze(1, 1)\<close> constructs, \<open>cell_at(-1, 0)\<close> raises nothing: it
  returns a cell with \<open>x = -1\<close> and the four walls of the only cell.
\<close>

theorem cell_at_negative_counterexample:
  "Maze_init 1 1 = Inr \<lparr>grid = [[15]], visited = [[False]], width = 1, height = 1\<rparr> \<and>
   cell_at \<lparr>grid = [[15]], visited = [[False]], width = 1, height = 1\<rparr> (- 1) 0 =
     Inr \<lparr>cell_x = - 1, cell_y = 0, cell_left = True, cell_right = True,
          cell_top = True, cell_bottom = True\<rparr>"
  by (simp add: Maze_init_def cell_at_def getitem2_def np_index_def)

text \<open>
  Claim C10: for \<open>x\<close> in \<open>[-width, width)\<close> and \<open>y\<close> in \<open>[-height, height)\<close>, and so
  for a negative \<open>x\<close> or \<open>y\<close> in these ranges, \<open>cell_at\<close> raises nothing. It returns
  a cell whose coordinates are the arguments as given and whose four wall flags are the
  bits of the byte stored in the grid at row \<open>y mod height\<close> and column \<open>x mod width\<close>
  (bit 1 left, bit 3 right, bit 0 top, bit 2 bottom): the flags that \<open>cell_at\<close> reports
  for the cell at \<open>(x mod width, y mod height)\<close>.
\<close>

theorem cell_at_negative_wraps:
  assumes "maze_wf m"
    and "- width m \<le> x" "x < width m" "- height m \<le> y" "y < height m"
  shows "cell_at m x y =
           Inr \<lparr>cell_x = x, cell_y = y,
                cell_left = bit (grid m ! nat (y mod height m) ! nat (x mod width m)) 1,
                cell_right = bit (grid m ! nat (y mod height m) ! nat (x mod width m)) 3,
                cell_top = bit (grid m ! nat (y mod height m) ! nat (x mod width m)) 0,
                cell_bottom = bit (grid m ! nat (y mod height m) ! nat (x mod width m)) 2\<rparr> \<and>
         cell_at m (x mod width m) (y mod height m) =
           Inr \<lparr>cell_x = x mod width m, cell_y = y mod height m,
                cell_left = bit (grid m ! nat (y mod height m) ! nat (x mod width m)) 1,
                cell_right = bit (grid m ! nat (y mod height m) ! nat (x mod width m)) 3,
                cell_top = bit (grid m ! nat (y mod height m) ! nat (x mod width m)) 0,
                cell_bottom = bit (grid m ! nat (y mod height m) ! nat (x mod width m)) 2\<rparr>"
proof -
  let ?c = "grid m ! nat (y mod height m) ! nat (x mod width m)"
  have decode: "bit c n \<longleftrightarrow> c AND push_bit n 1 \<noteq> 0" for c :: "8 word" and n
    by (rule bit_iff_and_push_bit_not_eq_0)
  note bits = decode [of ?c 0] decode [of ?c 1] decode [of ?c 2] decode [of ?c 3]
  from assms have pos: "0 < width m" "0 < height m"
    by linarith+
  then have "0 \<le> x mod width m" "x mod width m < width m"
    "0 \<le> y mod height m" "y mod height m < height m"
    by simp_all
  moreover from this pos have "- width m \<le> x mod width m" "- height m \<le> y mod height m"
    by linarith+
  ultimately have wrapped: "getitem2 (grid m) (y mod height m) (x mod width m) = Inr ?c"
    using getitem2_grid_wrap [of m "x mod width m" "y mod height m"] assms(1) by simp
  from assms have given: "getitem2 (grid m) y x = Inr ?c"
    by (rule getitem2_grid_wrap)
  from bits show ?thesis
    by (simp add: cell_at_def wrapped given)
qed

theorem cell_at_negative_wraps_witness:
  "maze_wf wide_maze_generated \<and>
   cell_at wide_maze_generated (- 1) (- 1) =
     Inr \<lparr>cell_x = - 1, cell_y = - 1, cell_left = False, cell_right = True,
          cell_top = True, cell_bottom = True\<rparr> \<and>
   cell_at wide_maze_generated 1 0 =
     Inr \<lparr>cell_x = 1, cell_y = 0, cell_left = False, cell_right = True,
          cell_top = True, cell_bottom = True\<rparr>"
proof -
  have wf: "maze_wf wide_maze_generated"
    by (simp add: maze_wf_def wide_maze_generated_def)
  have bits: "\<not> bit (13 :: 8 word) 1" "bit (13 :: 8 word) 3" "bit (13 :: 8 word) 0"
    "bit (13 :: 8 word) 2"
    by (simp_all add: bit_iff_odd)
  from cell_at_negative_wraps [OF wf, of "- 1" "- 1"] wf bits show ?thesis
    by (simp add: wide_maze_generated_def)
qed

section \<open>Collision containment\<close>

lemma astype_int32_unit: "0 \<le> r \<Longrightarrow> r < 1 \<Longrightarrow> astype_int32 r = 0"
  by (simp add: astype_int32_def floor_eq_iff)

text \<open>
  Claim C4: in a maze of one cell with all four walls present, an agent of size at most
  1 by 1 whose rectangle lies in the unit square is, after one \<open>Game.update\<close>, again
  inside the unit square, for every \<open>dt\<close> and every velocity. For an agent of positive
  width and height the update raises nothing; for a rectangle of width or height 0 the
  containment holds whenever the update returns.
\<close>

theorem Game_update_contained:
  assumes "maze_wf (game_maze g)" "width (game_maze g) = 1" "height (game_maze g) = 1"
    and walls: "cell_at (game_maze g) 0 0 =
           Inr \<lparr>cell_x = 0, cell_y = 0, cell_left = True, cell_right = True,
                cell_top = True, cell_bottom = True\<rparr>"
    and "0 \<le> player_width (player g)" "player_width (player g) \<le> 1"
    and "0 \<le> player_height (player g)" "player_height (player g) \<le> 1"
    and "in_unit_square (player g)"
  shows "(\<forall>g'. Game_update g dt = Inr g' \<longrightarrow> in_unit_square (player g')) \<and>
         (0 < player_width (player g) \<and> 0 < player_height (player g)
            \<longrightarrow> (\<exists>g'. Game_update g dt = Inr g'))"
proof -
  let ?p = "player g"
  let ?cx = "astype_int32 (fst (center ?p))"
  let ?cy = "astype_int32 (snd (center ?p))"
  have cx: "0 \<le> fst (center ?p)" "fst (center ?p) \<le> 1"
    and cy: "0 \<le> snd (center ?p)" "snd (center ?p) \<le> 1"
    using assms by (simp_all add: center_def in_unit_square_def)
  have ix: "?cx = 0 \<or> ?cx = 1"
    using cx astype_int32_unit [of "fst (center ?p)"] by (cases "fst (center ?p) = 1") (auto simp: astype_int32_def)
  have iy: "?cy = 0 \<or> ?cy = 1"
    using cy astype_int32_unit [of "snd (center ?p)"] by (cases "snd (center ?p) = 1") (auto simp: astype_int32_def)
  have out: "current_cell g = Inl IndexError" if "?cx = 1 \<or> ?cy = 1"
    using that assms(1-3) cell_at_outside [of "game_maze g" ?cx ?cy]
    by (auto simp: current_cell_def)
  have inn: "current_cell g = Inr \<lparr>cell_x = 0, cell_y = 0, cell_left = True, cell_right = True,
                cell_top = True, cell_bottom = True\<rparr>" if "?cx = 0" "?cy = 0"
    using that walls by (simp add: current_cell_def)
  have contained: "in_unit_square (player g')" if "Game_update g dt = Inr g'" for g'
  proof -
    from that out ix iy have "?cx = 0" "?cy = 0"
      by (auto simp: Game_update_def)
    note c = inn [OF this]
    from that c assms(5-8) show ?thesis
      by (auto simp: Game_update_def Let_def in_unit_square_def Player_update_def split: if_splits)
  qed
  have returns: "\<exists>g'. Game_update g dt = Inr g'"
    if "0 < player_width (player g)" "0 < player_height (player g)"
  proof -
    from that assms(9) have "fst (center ?p) < 1" "snd (center ?p) < 1"
      by (simp_all add: center_def in_unit_square_def)
    with cx cy have "?cx = 0" "?cy = 0"
      by (simp_all add: astype_int32_unit)
    note c = inn [OF this]
    then show ?thesis
      by (simp add: Game_update_def Let_def)
  qed
  from contained returns show ?thesis
    by blast
qed


theorem Game_update_contained_witness:
  "maze_wf (game_maze unit_game) \<and> in_unit_square (player unit_game) \<and>
   (\<exists>g'. Game_update unit_game 1 = Inr g' \<and> in_unit_square (player g'))"
proof -
  have "maze_wf (game_maze unit_game)" "width (game_maze unit_game) = 1"
    "height (game_maze unit_game) = 1"
    "cell_at (game_maze unit_game) 0 0 =
       Inr \<lparr>cell_x = 0, cell_y = 0, cell_left = True, cell_right = True,
            cell_top = True, cell_bottom = True\<rparr>"
    "in_unit_square (player unit_game)"
    by (simp_all add: unit_game_def unit_maze_def maze_wf_def cell_at_def getitem2_def
        np_index_def in_unit_square_def)
  from Game_update_contained [OF this(1-4) _ _ _ _ this(5), of 1] this(1,5)
  show ?thesis
    by (auto simp: unit_game_def)
qed

section \<open>Ray casting\<close>

lemma frac_half: "frac (1/2 :: real) = 1/2"
  by (simp add: frac_def)

lemma ceiling_half: "\<lceil>1/2 :: real\<rceil> = 1"
  by (simp add: ceiling_eq_iff)

text \<open>
  Claim C3 fails on the code. In a maze of width 2 and height 1, as constructed by
  \<open>Maze(2, 1)\<close> and as left by \<open>generate\<close>, the ray from (0.5, 0.5) in direction
  (0, 1) reaches the bottom boundary \<open>y = 1\<close>. The bound test compares this \<open>y\<close> with the
  width 2, not with the height 1, so the loop goes on to query the cell (0, 1), which does
  not exist: the call raises \<open>IndexError\<close> at its first crossing, whatever the bound on
  the loop.
\<close>

theorem ray_cast_fails_below_wide_maze:
  "Maze_init 2 1 = Inr wide_maze \<and>
   ray_cast (Suc n) (1/2) (1/2) 0 1 wide_maze = Some (Inl IndexError) \<and>
   ray_cast (Suc n) (1/2) (1/2) 0 1 wide_maze_generated = Some (Inl IndexError)"
  by (simp add: Maze_init_def ray_cast_def Let_def frac_half ceiling_half h_first_def
      beyond_width_def wide_maze_def wide_maze_generated_def round_half_even_def cell_at_def
      getitem2_def np_index_def frac_def numeral_2_eq_2)

text \<open>
  The call can fail in a square maze as well, when the start lies on a grid line. From
  (1, 0.5) in direction (1, -4) the first vertical crossing is placed on the line
  \<open>x = 1\<close> of the start itself, but a full step away in \<open>y\<close>, at (1, -3.5); it passes
  the bound test and the query of the cell (1, -4) raises \<open>IndexError\<close>.
\<close>

lemma ray_cast_fails_from_grid_line:
  "Maze_init 2 2 = Inr square_maze \<and>
   ray_cast (Suc n) 1 (1/2) 1 (- 4) square_maze = Some (Inl IndexError)"
  by (simp add: Maze_init_def ray_cast_def Let_def frac_half h_first_def beyond_width_def
      square_maze_def round_half_even_def cell_at_def getitem2_def np_index_def frac_def
      numeral_2_eq_2)

text \<open>
  Claim C6: in the maze that \<open>Maze(1, 1)\<close> constructs, the ray from (0.5, 0.5) in
  direction (1, 0) returns the point (1, 0.5). In general, in any iteration of the loop,
  when the crossing that the loop chooses has a coordinate that is at least the width of
  the maze, the loop returns that crossing.
\<close>

theorem ray_cast_boundary:
  "Maze_init 1 1 = Inr unit_maze \<and>
   ray_cast (Suc n) (1/2) (1/2) 1 0 unit_maze = Some (Inr (Finite 1, Finite (1/2))) \<and>
   (beyond_width m (if h_first x_sign y_sign next_h next_v then next_h else next_v) \<longrightarrow>
    ray_loop (Suc k) m x_sign y_sign x_inc y_inc next_h next_v =
      Some (Inr (if h_first x_sign y_sign next_h next_v then next_h else next_v)))"
  by (simp add: Maze_init_def ray_cast_def Let_def frac_half ceiling_half h_first_def
      beyond_width_def unit_maze_def)

theorem ray_cast_boundary_witness:
  "beyond_width wide_maze (Finite (1/2), Finite 2) \<and>
   h_first (- 1) 1 (Finite (1/2), Finite 2) (NegInf, PosInf) \<and>
   ray_loop (Suc 0) wide_maze (- 1) 1 (Finite 0) PosInf (Finite (1/2), Finite 2) (NegInf, PosInf)
     = Some (Inr (Finite (1/2), Finite 2))"
proof -
  have "beyond_width wide_maze (Finite (1/2), Finite 2)"
    and h: "h_first (- 1) 1 (Finite (1/2), Finite 2) (NegInf, PosInf)"
    by (simp_all add: beyond_width_def h_first_def wide_maze_def)
  with ray_cast_boundary [of 0 wide_maze "- 1" 1 "(Finite (1/2), Finite 2)" "(NegInf, PosInf)"
      0 "Finite 0" PosInf]
  show ?thesis
    by simp
qed

text \<open>
  Claim C8, as the code has it: with the zero direction vector both crossings are set to
  \<open>(-inf, -inf)\<close>, the first iteration chooses the horizontal one, finds it inside the
  bound, and converts its \<open>x\<close> to a cell index: \<open>floor(-inf)\<close> raises \<open>OverflowError\<close>.
  So the call fails at its first iteration, for every start point and every maze; the
  direction itself is never checked.
\<close>

theorem ray_cast_zero_direction:
  "ray_cast (Suc n) x y 0 0 m = Some (Inl OverflowError)"
  by (simp add: ray_cast_def Let_def h_first_def beyond_width_def)

text \<open>
  The zero direction from (0.5, 0.5) in the maze of \<open>Maze(1, 1)\<close>: the error raised is
  the arithmetic \<open>OverflowError\<close>, not the \<open>ValueError\<close> of an argument check.
\<close>

theorem ray_cast_zero_direction_counterexample:
  "ray_cast (Suc 0) (1/2) (1/2) 0 0 unit_maze = Some (Inl OverflowError) \<and>
   ray_cast (Suc 0) (1/2) (1/2) 0 0 unit_maze \<noteq> Some (Inl ValueError)"
  by (simp add: ray_cast_def Let_def h_first_def beyond_width_def)

section \<open>Maze generation\<close>

subsection \<open>Arrays of a maze, read and written inside the grid\<close>

lemma in_grid_nat:
  "in_grid m c \<Longrightarrow> nat (snd c) < nat (height m) \<and> nat (fst c) < nat (width m)"
  by (auto simp: in_grid_def)

lemma in_grid_nat_eq:
  "in_grid m c \<Longrightarrow> in_grid m c' \<Longrightarrow>
   nat (snd c) = nat (snd c') \<and> nat (fst c) = nat (fst c') \<longleftrightarrow> c = c'"
  by (auto simp: in_grid_def prod_eq_iff)

lemma getitem2_grid:
  assumes "maze_wf m" "in_grid m (x, y)"
  shows "getitem2 (grid m) y x = Inr (mask_at m (x, y))"
proof -
  from assms have "getitem2 (grid m) y x = Inr (grid m ! nat (y mod height m) ! nat (x mod width m))"
    by (intro getitem2_grid_wrap) (auto simp: in_grid_def)
  with assms show ?thesis
    by (simp add: mask_at_def in_grid_def)
qed

lemma cell_at_in_grid:
  assumes "maze_wf m" "in_grid m (x, y)"
  shows "cell_at m x y =
    Inr \<lparr>cell_x = x, cell_y = y,
         cell_left = bit (mask_at m (x, y)) 1, cell_right = bit (mask_at m (x, y)) 3,
         cell_top = bit (mask_at m (x, y)) 0, cell_bottom = bit (mask_at m (x, y)) 2\<rparr>"
proof -
  have "bit c n \<longleftrightarrow> c AND push_bit n 1 \<noteq> 0" for c :: "8 word" and n
    by (rule bit_iff_and_push_bit_not_eq_0)
  from this [of _ 0] this [of _ 1] this [of _ 2] this [of _ 3] assms show ?thesis
    by (simp add: cell_at_def getitem2_grid)
qed

lemma getitem2_in:
  assumes "length a = nat h" "list_all (\<lambda>r. length r = nat w) a"
    and "0 \<le> x" "x < w" "0 \<le> y" "y < h"
  shows "getitem2 a y x = Inr (a ! nat y ! nat x)"
proof -
  from assms have "np_index (length a) y = Inr (nat y)"
    by (simp add: np_index_nonneg)
  moreover from assms have "length (a ! nat y) = nat w"
    by (simp add: list_all_length)
  with assms have "np_index (length (a ! nat y)) x = Inr (nat x)"
    by (simp add: np_index_nonneg)
  ultimately show ?thesis
    by (simp add: getitem2_def)
qed

lemma setitem2_in:
  assumes "length a = nat h" "list_all (\<lambda>r. length r = nat w) a"
    and "0 \<le> x" "x < w" "0 \<le> y" "y < h"
  shows "setitem2 a y x v = Inr (a[nat y := (a ! nat y)[nat x := v]])"
proof -
  from assms have "np_index (length a) y = Inr (nat y)"
    by (simp add: np_index_nonneg)
  moreover from assms have "length (a ! nat y) = nat w"
    by (simp add: list_all_length)
  with assms have "np_index (length (a ! nat y)) x = Inr (nat x)"
    by (simp add: np_index_nonneg)
  ultimately show ?thesis
    by (simp add: setitem2_def)
qed

lemma update2_shape:
  assumes "length a = H" "list_all (\<lambda>r. length r = W) a"
  shows "length (a[i := (a ! i)[j := v]]) = H \<and>
         list_all (\<lambda>r. length r = W) (a[i := (a ! i)[j := v]])"
proof (cases "i < length a")
  case True
  with assms show ?thesis
    by (auto simp: list_all_length nth_list_update)
next
  case False
  then have "a[i := (a ! i)[j := v]] = a"
    by (intro list_update_beyond) simp
  with assms show ?thesis
    by simp
qed

lemma update2_nth:
  assumes "length a = H" "list_all (\<lambda>r. length r = W) a" "r < H" "c < W"
  shows "a[i := (a ! i)[j := v]] ! r ! c = (if r = i \<and> c = j then v else a ! r ! c)"
proof (cases "r = i")
  case True
  with assms have "a[i := (a ! i)[j := v]] ! r = (a ! i)[j := v]" "length (a ! i) = W"
    by (simp_all add: list_all_length)
  with assms True show ?thesis
    by (simp add: nth_list_update)
next
  case False
  then show ?thesis
    by simp
qed

subsection \<open>Wall bits\<close>

lemma bit_clear_mask:
  "bit (clear_mask c (push_bit w 1)) n \<longleftrightarrow> bit c n \<and> n \<noteq> w"
  by (auto simp: clear_mask_def bit_simps dest: bit_imp_le_length)

lemma bit_clear_mask_power:
  "bit (clear_mask c (2 ^ w)) n \<longleftrightarrow> bit c n \<and> n \<noteq> w"
  using bit_clear_mask [of c w n] by simp

lemma wall_cases: "w < 4 \<Longrightarrow> w = 0 \<or> w = 1 \<or> w = 2 \<or> w = (3 :: nat)"
  by auto

lemma opposite_simps:
  "opposite 0 = 2" "opposite (Suc 0) = 3" "opposite 2 = 0" "opposite 3 = 1"
  by (simp_all add: opposite_def)

lemma opposite_wall_mask:
  assumes "w < 4"
  shows "(if push_bit w (1 :: int) \<ge> 4 then drop_bit 2 (push_bit w (1 :: int))
          else push_bit 2 (push_bit w (1 :: int))) = push_bit (opposite w) 1"
proof -
  from assms consider "w = 0" | "w = 1" | "w = 2" | "w = 3"
    by (auto dest: wall_cases)
  then show ?thesis
  proof cases
    case 1
    then show ?thesis by (simp add: opposite_simps)
  next
    case 2
    then show ?thesis by (simp add: opposite_simps)
  next
    case 3
    then show ?thesis by (simp add: opposite_simps)
  next
    case 4
    then show ?thesis by (simp add: opposite_simps drop_bit_eq_div)
  qed
qed

lemma bit_15:
  assumes "w < 4"
  shows "bit (15 :: 8 word) w"
proof -
  from assms consider "w = 0" | "w = 1" | "w = 2" | "w = 3"
    by (auto dest: wall_cases)
  then show ?thesis
    by cases (simp_all add: bit_iff_odd)
qed

lemma neighbour_simps:
  "neighbour 0 c = (fst c, snd c - 1)"
  "neighbour (Suc 0) c = (fst c - 1, snd c)"
  "neighbour 2 c = (fst c, snd c + 1)"
  "neighbour 3 c = (fst c + 1, snd c)"
  by (simp_all add: neighbour_def wall_numbers_and_offsets_def numeral_2_eq_2 numeral_3_eq_3)

lemma opposite_less: "w < 4 \<Longrightarrow> opposite w < 4"
  by (simp add: opposite_def)

lemma opposite_opposite: "w < 4 \<Longrightarrow> opposite (opposite w) = w"
  by (simp add: opposite_def mod_simps)

lemma neighbour_opposite:
  assumes "w < 4"
  shows "neighbour (opposite w) (neighbour w c) = c"
proof -
  from assms consider "w = 0" | "w = Suc 0" | "w = 2" | "w = 3"
    by (auto dest: wall_cases)
  then show ?thesis
    by cases (simp_all add: opposite_simps neighbour_simps)
qed

lemma neighbour_neq:
  assumes "w < 4"
  shows "neighbour w c \<noteq> c"
proof -
  from assms consider "w = 0" | "w = Suc 0" | "w = 2" | "w = 3"
    by (auto dest: wall_cases)
  then show ?thesis
    by cases (simp_all add: neighbour_simps prod_eq_iff)
qed

lemma offsets_neighbour:
  "(w, dx, dy) \<in> set wall_numbers_and_offsets \<Longrightarrow>
   w < 4 \<and> (x + dx, y + dy) = neighbour w (x, y)"
  by (auto simp: wall_numbers_and_offsets_def neighbour_simps)

lemma neighbour_offsets:
  assumes "w < 4"
  shows "\<exists>dx dy. (w, dx, dy) \<in> set wall_numbers_and_offsets \<and>
     neighbour w (x, y) = (x + dx, y + dy)"
proof -
  from assms consider "w = 0" | "w = Suc 0" | "w = 2" | "w = 3"
    by (auto dest: wall_cases)
  then show ?thesis
    by cases (simp_all add: wall_numbers_and_offsets_def neighbour_simps)
qed

subsection \<open>Marking a cell\<close>

lemma mark_dims [simp]: "width (mark m c) = width m" "height (mark m c) = height m"
  "grid (mark m c) = grid m"
  by (simp_all add: mark_def)

lemma in_grid_mark [simp]: "in_grid (mark m c) = in_grid m"
  by (simp add: in_grid_def fun_eq_iff)

lemma mask_at_mark [simp]: "mask_at (mark m c) = mask_at m"
  by (simp add: mask_at_def fun_eq_iff)

lemma edges_mark [simp]: "edges (mark m c) = edges m"
  by (simp add: edges_def)

lemma walls_ok_mark [simp]: "walls_ok (mark m c) = walls_ok m"
  by (simp add: walls_ok_def)

lemma maze_wf_mark: "maze_wf m \<Longrightarrow> maze_wf (mark m c)"
  using update2_shape [of "visited m" "nat (height m)" "nat (width m)"]
  by (simp add: maze_wf_def mark_def)

lemma setitem2_visited:
  assumes "maze_wf m" "in_grid m (x, y)"
  shows "setitem2 (visited m) y x True = Inr (visited (mark m (x, y)))"
  using assms setitem2_in [of "visited m" "height m" "width m" x y True]
  by (simp add: maze_wf_def in_grid_def mark_def)

lemma getitem2_visited:
  assumes "maze_wf m" "in_grid m (x, y)"
  shows "getitem2 (visited m) y x = Inr (vis_at m (x, y))"
  using assms getitem2_in [of "visited m" "height m" "width m" x y]
  by (simp add: maze_wf_def in_grid_def vis_at_def)

lemma vis_at_mark:
  assumes "maze_wf m" "in_grid m c" "in_grid m a"
  shows "vis_at (mark m c) a \<longleftrightarrow> a = c \<or> vis_at m a"
proof -
  from assms have "visited (mark m c) ! nat (snd a) ! nat (fst a) =
      (if nat (snd a) = nat (snd c) \<and> nat (fst a) = nat (fst c) then True
       else visited m ! nat (snd a) ! nat (fst a))"
    unfolding mark_def using in_grid_nat [of m a]
    by (simp add: update2_nth [of _ "nat (height m)" "nat (width m)"] maze_wf_def)
  with assms show ?thesis
    using in_grid_nat_eq [of m a c] by (auto simp: vis_at_def)
qed

lemma visited_cells_mark:
  assumes "maze_wf m" "in_grid m c"
  shows "visited_cells (mark m c) = insert c (visited_cells m)"
  using assms by (auto simp: visited_cells_def vis_at_mark)

lemma unvisited_cells_mark:
  assumes "maze_wf m" "in_grid m c"
  shows "unvisited_cells (mark m c) = unvisited_cells m - {c}"
  using assms by (auto simp: unvisited_cells_def vis_at_mark)

lemma mark_record: "m\<lparr>visited := visited (mark m c)\<rparr> = mark m c"
  by (simp add: mark_def)

subsection \<open>Writing a byte\<close>

lemma set_mask_dims [simp]:
  "width (set_mask m c v) = width m" "height (set_mask m c v) = height m"
  "visited (set_mask m c v) = visited m"
  by (simp_all add: set_mask_def)

lemma in_grid_set_mask [simp]: "in_grid (set_mask m c v) = in_grid m"
  by (simp add: in_grid_def fun_eq_iff)

lemma vis_at_set_mask [simp]: "vis_at (set_mask m c v) = vis_at m"
  by (simp add: vis_at_def fun_eq_iff)

lemma maze_wf_set_mask: "maze_wf m \<Longrightarrow> maze_wf (set_mask m c v)"
  using update2_shape [of "grid m" "nat (height m)" "nat (width m)"]
  by (simp add: maze_wf_def set_mask_def)

lemma setitem2_grid:
  assumes "maze_wf m" "in_grid m (x, y)"
  shows "setitem2 (grid m) y x v = Inr (grid (set_mask m (x, y) v))"
  using assms setitem2_in [of "grid m" "height m" "width m" x y v]
  by (simp add: maze_wf_def in_grid_def set_mask_def)

lemma mask_at_set_mask:
  assumes "maze_wf m" "in_grid m c" "in_grid m a"
  shows "mask_at (set_mask m c v) a = (if a = c then v else mask_at m a)"
proof -
  from assms have "grid (set_mask m c v) ! nat (snd a) ! nat (fst a) =
      (if nat (snd a) = nat (snd c) \<and> nat (fst a) = nat (fst c) then v
       else grid m ! nat (snd a) ! nat (fst a))"
    unfolding set_mask_def using in_grid_nat [of m a]
    by (simp add: update2_nth [of _ "nat (height m)" "nat (width m)"] maze_wf_def)
  with assms show ?thesis
    using in_grid_nat_eq [of m a c] by (auto simp: mask_at_def)
qed

lemma set_mask_record: "m\<lparr>grid := grid (set_mask m c v)\<rparr> = set_mask m c v"
  by (simp add: set_mask_def)

subsection \<open>Clearing the wall between a cell and a neighbour\<close>

lemma carve_dims [simp]:
  "width (carve m c w) = width m" "height (carve m c w) = height m"
  "visited (carve m c w) = visited m"
  by (simp_all add: carve_def Let_def)

lemma in_grid_carve [simp]: "in_grid (carve m c w) = in_grid m"
  by (simp add: in_grid_def fun_eq_iff)

lemma vis_at_carve [simp]: "vis_at (carve m c w) = vis_at m"
  by (simp add: vis_at_def fun_eq_iff)

lemma visited_cells_carve [simp]: "visited_cells (carve m c w) = visited_cells m"
  by (simp add: visited_cells_def)

lemma unvisited_cells_carve [simp]: "unvisited_cells (carve m c w) = unvisited_cells m"
  by (simp add: unvisited_cells_def)

lemma maze_wf_carve: "maze_wf m \<Longrightarrow> maze_wf (carve m c w)"
  by (simp add: carve_def Let_def maze_wf_set_mask)

lemma mask_at_carve:
  assumes "maze_wf m" "in_grid m c" "w < 4" "in_grid m (neighbour w c)" "in_grid m a"
  shows "mask_at (carve m c w) a =
      (if a = neighbour w c
       then clear_mask (mask_at m (neighbour w c)) (push_bit (opposite w) 1)
       else if a = c then clear_mask (mask_at m c) (push_bit w 1) else mask_at m a)"
proof -
  let ?v = "clear_mask (mask_at m c) (push_bit w 1)"
  let ?m1 = "set_mask m c ?v"
  from assms have wf1: "maze_wf ?m1" and ne: "neighbour w c \<noteq> c"
    by (simp_all only: maze_wf_set_mask neighbour_neq not_False_eq_True)
  have 1: "mask_at ?m1 b = (if b = c then ?v else mask_at m b)" if "in_grid m b" for b
    using assms(1,2) that by (rule mask_at_set_mask)
  have in1: "in_grid ?m1 = in_grid m"
    by simp
  have "mask_at (carve m c w) a =
      (if a = neighbour w c
       then clear_mask (mask_at ?m1 (neighbour w c)) (push_bit (opposite w) 1)
       else mask_at ?m1 a)"
    unfolding carve_def Let_def
    using wf1 assms(4,5) by (intro mask_at_set_mask) (simp_all only: in1)
  also have "mask_at ?m1 (neighbour w c) = mask_at m (neighbour w c)"
    using 1 [OF assms(4)] ne by (simp only: if_False)
  also have "mask_at ?m1 a = (if a = c then ?v else mask_at m a)"
    using assms(5) by (rule 1)
  finally show ?thesis .
qed

lemma bit_mask_at_carve:
  assumes "maze_wf m" "in_grid m c" "w < 4" "in_grid m (neighbour w c)" "in_grid m a"
  shows "bit (mask_at (carve m c w) a) v \<longleftrightarrow>
           bit (mask_at m a) v \<and> \<not> (a = c \<and> v = w) \<and>
           \<not> (a = neighbour w c \<and> v = opposite w)"
proof -
  from assms have ne: "neighbour w c \<noteq> c"
    by (simp add: neighbour_neq)
  show ?thesis
    unfolding mask_at_carve [OF assms] using ne
    by (simp add: bit_clear_mask_power)
qed

lemma carve_affected:
  assumes w: "w < 4" and v: "v < 4"
  shows "(neighbour v a = c \<and> opposite v = w) \<or>
         (neighbour v a = neighbour w c \<and> opposite v = opposite w) \<longleftrightarrow>
         (a = neighbour w c \<and> v = opposite w) \<or> (a = c \<and> v = w)"
proof -
  have a: "neighbour (opposite v) (neighbour v a) = a" and vv: "opposite (opposite v) = v"
    using v by (simp_all only: neighbour_opposite opposite_opposite)
  have c: "neighbour (opposite w) (neighbour w c) = c" and ww: "opposite (opposite w) = w"
    using w by (simp_all only: neighbour_opposite opposite_opposite)
  have 1: "a = neighbour w c \<and> v = opposite w" if "neighbour v a = c" "opposite v = w"
  proof
    have "neighbour w c = neighbour (opposite v) (neighbour v a)"
      by (simp only: that)
    with a show "a = neighbour w c" by (simp only:)
    have "opposite w = opposite (opposite v)"
      by (simp only: that)
    with vv show "v = opposite w" by (simp only:)
  qed
  have 2: "a = c \<and> v = w" if "neighbour v a = neighbour w c" "opposite v = opposite w"
  proof
    have "neighbour (opposite v) (neighbour v a) = neighbour (opposite w) (neighbour w c)"
      by (simp only: that)
    then show "a = c" by (simp only: a c)
    have "opposite (opposite v) = opposite (opposite w)"
      by (simp only: that)
    then show "v = w" by (simp only: vv ww)
  qed
  have 3: "neighbour v a = c \<and> opposite v = w" if "a = neighbour w c" "v = opposite w"
    by (simp only: that c ww)
  have 4: "neighbour v a = neighbour w c \<and> opposite v = opposite w" if "a = c" "v = w"
    by (simp only: that)
  from 1 2 3 4 show ?thesis
    by blast
qed

lemma walls_ok_carve:
  assumes wf: "maze_wf m" and ok: "walls_ok m"
    and c: "in_grid m c" "w < 4" "in_grid m (neighbour w c)"
  shows "walls_ok (carve m c w)"
  unfolding walls_ok_def
proof (intro allI impI)
  fix a and v :: nat
  assume a: "in_grid (carve m c w) a" "v < 4"
  then have a': "in_grid m a" by simp
  note bit_a = bit_mask_at_carve [OF wf c a', of v]
  from ok a' a have old: "if in_grid m (neighbour v a)
      then bit (mask_at m a) v = bit (mask_at m (neighbour v a)) (opposite v)
      else bit (mask_at m a) v"
    unfolding walls_ok_def by blast
  show "if in_grid (carve m c w) (neighbour v a)
      then bit (mask_at (carve m c w) a) v =
           bit (mask_at (carve m c w) (neighbour v a)) (opposite v)
      else bit (mask_at (carve m c w) a) v"
  proof (cases "in_grid m (neighbour v a)")
    case True
    note bit_b = bit_mask_at_carve [OF wf c True, of "opposite v"]
    from True old bit_a bit_b carve_affected [OF c(2) a(2), of a c] show ?thesis
      by auto
  next
    case False
    with c a have "\<not> (a = c \<and> v = w)" "\<not> (a = neighbour w c \<and> v = opposite w)"
      by (auto simp: neighbour_opposite)
    with False old bit_a show ?thesis
      by simp
  qed
qed

lemma edges_carve:
  assumes wf: "maze_wf m" and c: "in_grid m c" "w < 4" "in_grid m (neighbour w c)"
  shows "edges (carve m c w) =
           insert (c, neighbour w c) (insert (neighbour w c, c) (edges m))"
proof -
  have "(a, b) \<in> edges (carve m c w) \<longleftrightarrow>
        (a, b) \<in> insert (c, neighbour w c) (insert (neighbour w c, c) (edges m))" for a b
  proof (cases "in_grid m a \<and> in_grid m b")
    case True
    then have a: "in_grid m a" by simp
    have "(\<exists>v<4. b = neighbour v a \<and> \<not> bit (mask_at (carve m c w) a) v) \<longleftrightarrow>
          (\<exists>v<4. b = neighbour v a \<and> \<not> bit (mask_at m a) v) \<or>
          (a = c \<and> b = neighbour w c) \<or> (a = neighbour w c \<and> b = c)"
      using c opposite_less [of w]
      by (auto simp: bit_mask_at_carve [OF wf c a] neighbour_opposite)
    with True show ?thesis
      by (auto simp: edges_def)
  next
    case False
    with c show ?thesis
      by (auto simp: edges_def)
  qed
  then show ?thesis
    by auto
qed

subsection \<open>The steps of the traversal\<close>

lemma generate_rec_mark:
  assumes "maze_wf m" "in_grid m (x, y)"
  shows "generate_rec ch (Suc n) (k, m) x y =
           generate_loop ch n (ch k) (Suc k, mark m (x, y)) x y"
  using assms by (simp add: setitem2_visited mark_record)

lemma generate_loop_outside:
  assumes "\<not> in_grid m (x + dx, y + dy)"
  shows "generate_loop ch n ((w, dx, dy) # rest) (k, m) x y =
           generate_loop ch n rest (k, m) x y"
  using assms by (auto simp: in_grid_def Let_def)

lemma generate_loop_visited:
  assumes "maze_wf m" "in_grid m (x + dx, y + dy)" "vis_at m (x + dx, y + dy)"
  shows "generate_loop ch n ((w, dx, dy) # rest) (k, m) x y =
           generate_loop ch n rest (k, m) x y"
  using assms by (simp add: Let_def getitem2_visited)

lemma carve_record:
  "m\<lparr>grid := grid (set_mask (set_mask m c v) c' v')\<rparr> = set_mask (set_mask m c v) c' v'"
  by (simp add: set_mask_def)

lemma generate_loop_carve:
  assumes wf: "maze_wf m" and c: "in_grid m (x, y)"
    and el: "(w, dx, dy) \<in> set wall_numbers_and_offsets"
    and c': "in_grid m (x + dx, y + dy)" "\<not> vis_at m (x + dx, y + dy)"
  shows "generate_loop ch n ((w, dx, dy) # rest) (k, m) x y =
           (case generate_rec ch n (k, carve m (x, y) w) (x + dx) (y + dy) of
              None \<Rightarrow> None
            | Some (Inl e) \<Rightarrow> Some (Inl e)
            | Some (Inr s') \<Rightarrow> generate_loop ch n rest s' x y)"
proof -
  let ?v = "clear_mask (mask_at m (x, y)) (push_bit w 1)"
  let ?m1 = "set_mask m (x, y) ?v"
  let ?v' = "clear_mask (mask_at ?m1 (x + dx, y + dy)) (push_bit (opposite w) 1)"
  from el have w: "w < 4" and nb: "neighbour w (x, y) = (x + dx, y + dy)"
    using offsets_neighbour [of w dx dy x y] by simp_all
  from c' have inside: "\<not> (x + dx < 0 \<or> x + dx \<ge> width m \<or> y + dy < 0 \<or> y + dy \<ge> height m)"
    by (auto simp: in_grid_def)
  from wf c' have vis: "getitem2 (visited m) (y + dy) (x + dx) = Inr False"
    by (simp add: getitem2_visited)
  from wf c have g1: "getitem2 (grid m) y x = Inr (mask_at m (x, y))"
    by (rule getitem2_grid)
  from wf c have s1: "setitem2 (grid m) y x ?v = Inr (grid ?m1)"
    by (rule setitem2_grid)
  from wf have wf1: "maze_wf ?m1"
    by (rule maze_wf_set_mask)
  from c' have c1: "in_grid ?m1 (x + dx, y + dy)"
    by simp
  from wf1 c1 have g2: "getitem2 (grid ?m1) (y + dy) (x + dx) = Inr (mask_at ?m1 (x + dx, y + dy))"
    by (rule getitem2_grid)
  from wf1 c1 have s2: "setitem2 (grid ?m1) (y + dy) (x + dx) ?v' =
      Inr (grid (set_mask ?m1 (x + dx, y + dy) ?v'))"
    by (rule setitem2_grid)
  have final: "m\<lparr>grid := grid (set_mask ?m1 (x + dx, y + dy) ?v')\<rparr> = carve m (x, y) w"
    by (simp only: carve_record carve_def Let_def nb)
  show ?thesis
    by (simp only: generate_loop.simps Let_def inside if_False vis sum.case bool.case
        opposite_wall_mask [OF w] g1 s1 g2 s2 final)
qed

subsection \<open>The traversal\<close>

lemma cells_finite: "finite {c. in_grid m c}"
proof -
  have "{c. in_grid m c} \<subseteq> {0..<width m} \<times> {0..<height m}"
    by (auto simp: in_grid_def)
  then show ?thesis
    by (rule finite_subset) simp
qed

lemma unvisited_finite: "finite (unvisited_cells m)"
  by (rule finite_subset [OF _ cells_finite [of m]]) (auto simp: unvisited_cells_def)

lemma unvisited_alt: "unvisited_cells m = {c. in_grid m c} - visited_cells m"
  by (auto simp: unvisited_cells_def visited_cells_def)

lemma traversed_unvisited:
  assumes "traversed m m'"
  shows "card (unvisited_cells m') \<le> card (unvisited_cells m)"
proof -
  from assms have "in_grid m' = in_grid m" "visited_cells m \<subseteq> visited_cells m'"
    by (auto simp: traversed_def in_grid_def fun_eq_iff)
  then have "unvisited_cells m' \<subseteq> unvisited_cells m"
    by (auto simp: unvisited_alt)
  then show ?thesis
    by (intro card_mono unvisited_finite)
qed

lemma traversed_in_grid: "traversed m m' \<Longrightarrow> in_grid m' = in_grid m"
  by (auto simp: traversed_def in_grid_def fun_eq_iff)

lemma traversed_trans:
  assumes "traversed m m1" "traversed m1 m2"
  shows "traversed m m2"
proof -
  from assms have g: "in_grid m1 = in_grid m"
    by (simp add: traversed_in_grid)
  from assms have sub: "visited_cells m \<subseteq> visited_cells m1" "visited_cells m1 \<subseteq> visited_cells m2"
    by (simp_all add: traversed_def)
  have "neighbour w c \<in> visited_cells m2"
    if "c \<in> visited_cells m2 - visited_cells m" "w < 4" "in_grid m (neighbour w c)" for c w
  proof (cases "c \<in> visited_cells m1")
    case True
    with that assms(1) have "neighbour w c \<in> visited_cells m1"
      by (auto simp: traversed_def)
    with sub show ?thesis by auto
  next
    case False
    with that assms(2) g show ?thesis
      by (auto simp: traversed_def)
  qed
  with assms sub show ?thesis
    unfolding traversed_def by auto
qed

lemma traversed_carve:
  assumes "traversed (carve m c w) m'"
  shows "traversed m m'"
  using assms by (simp add: traversed_def in_grid_def)

lemma traversed_mark:
  assumes wf: "maze_wf m" and c: "in_grid m c"
    and t: "traversed (mark m c) m'"
    and nb: "\<And>w. w < 4 \<Longrightarrow> in_grid m (neighbour w c) \<Longrightarrow> neighbour w c \<in> visited_cells m'"
  shows "traversed m m'"
proof -
  from wf c have v: "visited_cells (mark m c) = insert c (visited_cells m)"
    by (rule visited_cells_mark)
  have "neighbour w a \<in> visited_cells m'"
    if "a \<in> visited_cells m' - visited_cells m" "w < 4" "in_grid m (neighbour w a)" for a w
  proof (cases "a = c")
    case True
    with that nb show ?thesis by simp
  next
    case False
    with that v have "a \<in> visited_cells m' - visited_cells (mark m c)"
      by simp
    with that t show ?thesis
      by (auto simp: traversed_def)
  qed
  with t v show ?thesis
    unfolding traversed_def by auto
qed

lemma loop_post_Nil:
  assumes "maze_wf m" "walls_ok m" "is_tree (visited_cells m) (edges m)"
  shows "loop_post ch n [] k m x y"
  using assms by (simp add: loop_post_def traversed_def)

lemma loop_post_skip:
  assumes eq: "generate_loop ch n ((w, dx, dy) # rest) (k, m) x y =
               generate_loop ch n rest (k, m) x y"
    and rest: "loop_post ch n rest k m x y"
    and head: "in_grid m (x + dx, y + dy) \<Longrightarrow> (x + dx, y + dy) \<in> visited_cells m"
  shows "loop_post ch n ((w, dx, dy) # rest) k m x y"
proof -
  have "(x + dx, y + dy) \<in> visited_cells m'"
    if "traversed m m'" "in_grid m (x + dx, y + dy)" for m'
    using that head by (auto simp: traversed_def)
  with rest show ?thesis
    unfolding loop_post_def eq by fastforce
qed

lemma loop_post_carve:
  assumes wf: "maze_wf m" and ok: "walls_ok m" and c: "in_grid m (x, y)"
    and vis: "(x, y) \<in> visited_cells m" and tree: "is_tree (visited_cells m) (edges m)"
    and el: "(w, dx, dy) \<in> set wall_numbers_and_offsets"
    and c': "in_grid m (x + dx, y + dy)" "\<not> vis_at m (x + dx, y + dy)"
    and rec: "rec_ok ch n"
    and rest: "\<And>k' m'. maze_wf m' \<Longrightarrow> walls_ok m' \<Longrightarrow> in_grid m' (x, y) \<Longrightarrow>
        (x, y) \<in> visited_cells m' \<Longrightarrow> is_tree (visited_cells m') (edges m') \<Longrightarrow>
        loop_post ch n rest k' m' x y"
  shows "loop_post ch n ((w, dx, dy) # rest) k m x y"
proof -
  let ?c' = "(x + dx, y + dy)"
  let ?m2 = "carve m (x, y) w"
  let ?rec = "generate_rec ch n (k, ?m2) (x + dx) (y + dy)"
  from el have w: "w < 4" and nb: "neighbour w (x, y) = ?c'"
    using offsets_neighbour [of w dx dy x y] by simp_all
  note eq = generate_loop_carve [OF wf c el c', of ch n rest k]
  from c' nb have c'': "in_grid m (neighbour w (x, y))"
    by simp
  have wf2: "maze_wf ?m2"
    using wf by (rule maze_wf_carve)
  have ok2: "walls_ok ?m2"
    using wf ok c w c'' by (rule walls_ok_carve)
  from c' have notvis: "?c' \<notin> visited_cells m"
    by (simp add: visited_cells_def)
  have "edges ?m2 = insert ((x, y), ?c') (insert (?c', (x, y)) (edges m))"
    using edges_carve [OF wf c w c''] nb by simp
  with tree vis notvis have tree2: "is_tree (insert ?c' (visited_cells ?m2)) (edges ?m2)"
    by (simp add: is_tree.extend)
  from rec wf2 ok2 c' notvis tree2 have post2: "rec_post ch n k ?m2 (x + dx) (y + dy)"
    unfolding rec_ok_def by simp
  have after: "\<exists>k' m'. r = Inr (k', m') \<and> traversed m m' \<and> ?c' \<in> visited_cells m' \<and>
      loop_post ch n rest k' m' x y" if "?rec = Some r" for r
  proof -
    from post2 that obtain k' m' where r: "r = Inr (k', m')" and t: "traversed ?m2 m'"
      and v: "?c' \<in> visited_cells m'"
      unfolding rec_post_def by blast
    from t have t': "traversed m m'"
      by (rule traversed_carve)
    with c vis have "maze_wf m'" "walls_ok m'" "in_grid m' (x, y)" "(x, y) \<in> visited_cells m'"
      "is_tree (visited_cells m') (edges m')"
      by (auto simp: traversed_in_grid) (auto simp: traversed_def)
    then have "loop_post ch n rest k' m' x y"
      by (rule rest)
    with r t' v show ?thesis
      by blast
  qed
  have returns: "generate_loop ch n ((w, dx, dy) # rest) (k, m) x y \<noteq> None"
    if n: "card (unvisited_cells m) \<le> n"
  proof -
    from n post2 obtain r where r: "?rec = Some r"
      unfolding rec_post_def by auto
    from after [OF r] obtain k' m' where r': "r = Inr (k', m')" and t: "traversed m m'"
      and l: "loop_post ch n rest k' m' x y"
      by blast
    from t n have "card (unvisited_cells m') \<le> n"
      using traversed_unvisited [of m m'] by simp
    with l have "generate_loop ch n rest (k', m') x y \<noteq> None"
      by (simp add: loop_post_def)
    with r r' show ?thesis
      unfolding eq by simp
  qed
  have post: "\<exists>k'' m''. r' = Inr (k'', m'') \<and> traversed m m'' \<and>
      (\<forall>(w, dx, dy) \<in> set ((w, dx, dy) # rest).
         in_grid m (x + dx, y + dy) \<longrightarrow> (x + dx, y + dy) \<in> visited_cells m'')"
    if res: "generate_loop ch n ((w, dx, dy) # rest) (k, m) x y = Some r'" for r'
  proof -
    from res obtain r where r: "?rec = Some r"
      unfolding eq by (cases ?rec) auto
    from after [OF r] obtain k' m' where r': "r = Inr (k', m')" and t: "traversed m m'"
      and v: "?c' \<in> visited_cells m'" and l: "loop_post ch n rest k' m' x y"
      by blast
    from res r r' have "generate_loop ch n rest (k', m') x y = Some r'"
      unfolding eq by simp
    with l obtain k'' m'' where r'': "r' = Inr (k'', m'')" and t': "traversed m' m''"
      and all: "\<forall>(w, dx, dy) \<in> set rest.
         in_grid m' (x + dx, y + dy) \<longrightarrow> (x + dx, y + dy) \<in> visited_cells m''"
      unfolding loop_post_def by blast
    from t t' have tt: "traversed m m''"
      by (rule traversed_trans)
    from t' v have "?c' \<in> visited_cells m''"
      by (auto simp: traversed_def)
    with all t have "\<forall>(w, dx, dy) \<in> set ((w, dx, dy) # rest).
         in_grid m (x + dx, y + dy) \<longrightarrow> (x + dx, y + dy) \<in> visited_cells m''"
      by (simp add: traversed_in_grid)
    with r'' tt show ?thesis
      by blast
  qed
  from returns post show ?thesis
    unfolding loop_post_def by blast
qed

lemma loop_from_rec:
  assumes rec: "rec_ok ch n"
  shows "set rest \<subseteq> set wall_numbers_and_offsets \<Longrightarrow> maze_wf m \<Longrightarrow> walls_ok m \<Longrightarrow>
    in_grid m (x, y) \<Longrightarrow> (x, y) \<in> visited_cells m \<Longrightarrow>
    is_tree (visited_cells m) (edges m) \<Longrightarrow> loop_post ch n rest k m x y"
proof (induction rest arbitrary: k m)
  case Nil
  then show ?case
    by (simp add: loop_post_Nil)
next
  case (Cons a rest)
  obtain w dx dy where a: "a = (w, dx, dy)"
    by (cases a) auto
  from Cons.prems a have el: "(w, dx, dy) \<in> set wall_numbers_and_offsets"
    and sub: "set rest \<subseteq> set wall_numbers_and_offsets"
    by simp_all
  note IH = Cons.IH [OF sub]
  show ?case
  proof (cases "in_grid m (x + dx, y + dy)")
    case False
    then have "generate_loop ch n ((w, dx, dy) # rest) (k, m) x y =
        generate_loop ch n rest (k, m) x y"
      by (rule generate_loop_outside)
    moreover from Cons.prems have "loop_post ch n rest k m x y"
      by (intro IH)
    ultimately show ?thesis
      unfolding a using False by (intro loop_post_skip) simp_all
  next
    case inside: True
    show ?thesis
    proof (cases "vis_at m (x + dx, y + dy)")
      case True
      with Cons.prems inside have "generate_loop ch n ((w, dx, dy) # rest) (k, m) x y =
          generate_loop ch n rest (k, m) x y"
        by (intro generate_loop_visited)
      moreover from Cons.prems have "loop_post ch n rest k m x y"
        by (intro IH)
      moreover from True inside have "(x + dx, y + dy) \<in> visited_cells m"
        by (simp add: visited_cells_def)
      ultimately show ?thesis
        unfolding a by (intro loop_post_skip) simp_all
    next
      case False
      show ?thesis
        unfolding a
        using Cons.prems(2-6) el inside False rec
      proof (rule loop_post_carve)
        fix k' m'
        assume "maze_wf m'" "walls_ok m'" "in_grid m' (x, y)" "(x, y) \<in> visited_cells m'"
          "is_tree (visited_cells m') (edges m')"
        then show "loop_post ch n rest k' m' x y"
          by (rule IH)
      qed
    qed
  qed
qed

lemma rec_ok_0: "rec_ok ch 0"
proof -
  have "0 < card (unvisited_cells m)" if "in_grid m c" "c \<notin> visited_cells m" for m c
  proof -
    from that have "c \<in> unvisited_cells m"
      by (simp add: unvisited_alt)
    then show ?thesis
      using unvisited_finite [of m] by (auto simp: card_gt_0_iff)
  qed
  then show ?thesis
    unfolding rec_ok_def rec_post_def by fastforce
qed

lemma rec_ok_Suc:
  assumes ch: "shuffle_outcomes ch" and rec: "rec_ok ch n"
  shows "rec_ok ch (Suc n)"
  unfolding rec_ok_def
proof (intro allI impI)
  fix k m x y
  assume wf: "maze_wf m" and ok: "walls_ok m" and c: "in_grid m (x, y)"
    and new: "(x, y) \<notin> visited_cells m"
    and tree: "is_tree (insert (x, y) (visited_cells m)) (edges m)"
  let ?m1 = "mark m (x, y)"
  note eq = generate_rec_mark [OF wf c, of ch n k]
  from ch have all: "set (ch k) = set wall_numbers_and_offsets"
    by (simp add: shuffle_outcomes_def)
  from wf c have v1: "visited_cells ?m1 = insert (x, y) (visited_cells m)"
    by (rule visited_cells_mark)
  have "loop_post ch n (ch k) (Suc k) ?m1 x y"
    using rec
  proof (rule loop_from_rec)
    show "set (ch k) \<subseteq> set wall_numbers_and_offsets"
      using all by simp
    show "maze_wf ?m1"
      using wf by (rule maze_wf_mark)
    show "walls_ok ?m1" "in_grid ?m1 (x, y)"
      using ok c by simp_all
    show "(x, y) \<in> visited_cells ?m1" "is_tree (visited_cells ?m1) (edges ?m1)"
      using tree by (simp_all add: v1)
  qed
  then have returns: "card (unvisited_cells ?m1) \<le> n \<Longrightarrow>
      generate_loop ch n (ch k) (Suc k, ?m1) x y \<noteq> None"
    and post: "\<And>r. generate_loop ch n (ch k) (Suc k, ?m1) x y = Some r \<Longrightarrow>
      \<exists>k' m'. r = Inr (k', m') \<and> traversed ?m1 m' \<and>
        (\<forall>(w, dx, dy) \<in> set (ch k).
           in_grid ?m1 (x + dx, y + dy) \<longrightarrow> (x + dx, y + dy) \<in> visited_cells m')"
    unfolding loop_post_def by blast+
  have 1: "generate_rec ch (Suc n) (k, m) x y \<noteq> None"
    if n: "card (unvisited_cells m) \<le> Suc n"
  proof -
    from c new have "(x, y) \<in> unvisited_cells m"
      by (simp add: unvisited_alt)
    then have "card (unvisited_cells m - {(x, y)}) = card (unvisited_cells m) - 1"
      using unvisited_finite [of m] by simp
    with n wf c have "card (unvisited_cells ?m1) \<le> n"
      by (simp add: unvisited_cells_mark)
    then show ?thesis
      unfolding eq by (rule returns)
  qed
  have 2: "\<exists>k' m'. r = Inr (k', m') \<and> traversed m m' \<and> (x, y) \<in> visited_cells m'"
    if r: "generate_rec ch (Suc n) (k, m) x y = Some r" for r
  proof -
    from r post obtain k' m' where r': "r = Inr (k', m')" and t: "traversed ?m1 m'"
      and nbs: "\<forall>(w, dx, dy) \<in> set (ch k).
           in_grid ?m1 (x + dx, y + dy) \<longrightarrow> (x + dx, y + dy) \<in> visited_cells m'"
      unfolding eq by blast
    have "neighbour w (x, y) \<in> visited_cells m'"
      if "w < 4" "in_grid m (neighbour w (x, y))" for w
    proof -
      from that obtain dx dy where "(w, dx, dy) \<in> set wall_numbers_and_offsets"
        "neighbour w (x, y) = (x + dx, y + dy)"
        using neighbour_offsets [of w x y] by blast
      with nbs that all show ?thesis
        by auto
    qed
    with wf c t have "traversed m m'"
      by (intro traversed_mark [of m "(x, y)"])
    moreover from t v1 have "(x, y) \<in> visited_cells m'"
      by (auto simp: traversed_def)
    ultimately show ?thesis
      using r' by blast
  qed
  from 1 2 show "rec_post ch (Suc n) k m x y"
    unfolding rec_post_def by blast
qed

lemma rec_ok: "shuffle_outcomes ch \<Longrightarrow> rec_ok ch n"
  by (induction n) (simp_all add: rec_ok_0 rec_ok_Suc)

subsection \<open>Trees\<close>

lemma is_tree_finite: "is_tree V E \<Longrightarrow> finite V \<and> finite E"
  by (induction rule: is_tree.induct) auto

lemma is_tree_edges: "is_tree V E \<Longrightarrow> E \<subseteq> V \<times> V"
  by (induction rule: is_tree.induct) auto

lemma is_tree_sym: "is_tree V E \<Longrightarrow> (a, b) \<in> E \<Longrightarrow> (b, a) \<in> E"
  by (induction rule: is_tree.induct) auto

lemma is_tree_card: "is_tree V E \<Longrightarrow> card E = 2 * (card V - 1)"
proof (induction rule: is_tree.induct)
  case (single v)
  show ?case by simp
next
  case (extend V E u v)
  from extend have fin: "finite V" "finite E" and sub: "E \<subseteq> V \<times> V"
    by (simp_all add: is_tree_finite is_tree_edges)
  from sub extend have new: "(u, v) \<notin> E" "(v, u) \<notin> E" "(u, v) \<noteq> (v, u)"
    by auto
  from extend fin have "0 < card V"
    by (auto simp: card_gt_0_iff)
  with fin new extend show ?case
    by simp
qed

lemma path_nonempty: "path E p \<Longrightarrow> p \<noteq> []"
  by auto

lemma path_mono: "path E p \<Longrightarrow> E \<subseteq> E' \<Longrightarrow> path E' p"
  by (induction E p rule: path.induct) auto

lemma path_tl: "path E (v # q) \<Longrightarrow> q \<noteq> [] \<Longrightarrow> path E q \<and> (v, hd q) \<in> E"
  by (cases q) auto

lemma path_Cons: "q \<noteq> [] \<Longrightarrow> path E (v # q) \<longleftrightarrow> (v, hd q) \<in> E \<and> path E q"
  by (cases q) auto

lemma path_vertices:
  "path E p \<Longrightarrow> E \<subseteq> V \<times> V \<Longrightarrow> hd p \<in> V \<Longrightarrow> set p \<subseteq> V"
  by (induction E p rule: path.induct) auto

lemma path_restrict:
  "path E' p \<Longrightarrow> (\<And>a b. (a, b) \<in> E' \<Longrightarrow> a \<noteq> v \<Longrightarrow> b \<noteq> v \<Longrightarrow> (a, b) \<in> E) \<Longrightarrow>
   v \<notin> set p \<Longrightarrow> path E p"
  by (induction E' p rule: path.induct) auto

lemma path_append_edge:
  "path E (xs @ v # ys) \<Longrightarrow> xs \<noteq> [] \<Longrightarrow> (last xs, v) \<in> E"
proof (induction xs)
  case Nil
  then show ?case by simp
next
  case (Cons x xs)
  show ?case
  proof (cases xs)
    case Nil
    with Cons.prems show ?thesis by simp
  next
    case (Cons x' xs')
    with Cons.prems Cons.IH show ?thesis by simp
  qed
qed

lemma path_append_right: "path E (xs @ ys) \<Longrightarrow> ys \<noteq> [] \<Longrightarrow> path E ys"
proof (induction xs)
  case Nil
  then show ?case by simp
next
  case (Cons x xs)
  then show ?case by (cases "xs @ ys") auto
qed

lemma path_snoc: "xs \<noteq> [] \<Longrightarrow> path E (xs @ [v]) \<longleftrightarrow> path E xs \<and> (last xs, v) \<in> E"
proof (induction xs)
  case Nil
  then show ?case by simp
next
  case (Cons x xs)
  then show ?case by (cases xs) auto
qed

lemma path_rev:
  assumes "\<And>a b. (a, b) \<in> E \<Longrightarrow> (b, a) \<in> E"
  shows "path E p \<Longrightarrow> path E (rev p)"
proof (induction p rule: induct_list012)
  case (3 u v p)
  from 3 have uv: "(u, v) \<in> E" and "path E (v # p)"
    by simp_all
  with 3 have "path E (rev (v # p))"
    by blast
  moreover from uv have "(v, u) \<in> E"
    by (rule assms)
  moreover have "rev (v # p) \<noteq> []" "last (rev (v # p)) = v"
    by simp_all
  ultimately have "path E (rev (v # p) @ [u])"
    using path_snoc [of "rev (v # p)" E u] by simp
  then show ?case by simp
qed simp_all

lemma simple_path_rev:
  assumes "\<And>a b. (a, b) \<in> E \<Longrightarrow> (b, a) \<in> E"
  shows "simple_path E a b p \<Longrightarrow> simple_path E b a (rev p)"
  using assms by (auto simp: simple_path_def path_rev hd_rev last_rev)

lemma simple_path_refl: "simple_path E a a p \<longleftrightarrow> p = [a]"
proof
  assume "simple_path E a a p"
  then have p: "p \<noteq> []" "hd p = a" "last p = a" "distinct p"
    by (auto simp: simple_path_def)
  show "p = [a]"
  proof (cases p)
    case Nil
    with p show ?thesis by simp
  next
    case (Cons x q)
    with p have "x = a" by simp
    show ?thesis
    proof (cases "q = []")
      case True
      with Cons \<open>x = a\<close> show ?thesis by simp
    next
      case False
      with p Cons have "last q = a" by simp
      with False have "a \<in> set q" using last_in_set by metis
      with p Cons \<open>x = a\<close> show ?thesis by simp
    qed
  qed
next
  assume "p = [a]"
  then show "simple_path E a a p"
    by (simp add: simple_path_def)
qed


lemma simple_path_unique_rev:
  assumes sym: "\<And>a b. (a, b) \<in> E \<Longrightarrow> (b, a) \<in> E"
    and ex: "\<exists>!p. simple_path E b a p"
  shows "\<exists>!p. simple_path E a b p"
proof -
  from ex obtain q where q: "simple_path E b a q" and u: "\<And>p. simple_path E b a p \<Longrightarrow> p = q"
    by blast
  show ?thesis
  proof (rule ex1I)
    show "simple_path E a b (rev q)"
      using q sym by (rule simple_path_rev [rotated])
  next
    fix p
    assume "simple_path E a b p"
    then have "simple_path E b a (rev p)"
      using sym by (rule simple_path_rev [rotated])
    then have "rev p = q"
      by (rule u)
    then show "p = rev q"
      by auto
  qed
qed

text \<open>Adding a leaf \<open>v\<close>, joined to \<open>u\<close>.\<close>

lemma leaf_not_inner:
  assumes sub: "E \<subseteq> V \<times> V" and v: "v \<notin> V"
    and p: "path (insert (u, v) (insert (v, u) E)) p" "distinct p" "hd p \<noteq> v" "last p \<noteq> v"
  shows "v \<notin> set p"
proof
  let ?E = "insert (u, v) (insert (v, u) E)"
  assume "v \<in> set p"
  then obtain xs ys where split: "p = xs @ v # ys"
    by (auto simp: in_set_conv_decomp)
  with p have xs: "xs \<noteq> []" and ys: "ys \<noteq> []"
    by (auto simp: hd_append)
  from p split xs have "(last xs, v) \<in> ?E"
    using path_append_edge [of ?E xs v ys] by simp
  with sub v have 1: "last xs = u"
    by auto
  from p split have "path ?E (v # ys)"
    using path_append_right [of ?E xs "v # ys"] by simp
  with ys have "(v, hd ys) \<in> ?E"
    using path_tl [of ?E v ys] by blast
  with sub v have 2: "hd ys = u"
    by auto
  from 1 xs have "u \<in> set xs"
    using last_in_set by metis
  moreover from 2 ys have "u \<in> set ys"
    using hd_in_set by metis
  ultimately show False
    using p split by auto
qed

lemma leaf_paths_old:
  assumes sub: "E \<subseteq> V \<times> V" and v: "v \<notin> V" and ab: "a \<in> V" "b \<in> V"
  shows "simple_path (insert (u, v) (insert (v, u) E)) a b p \<longleftrightarrow> simple_path E a b p"
proof
  let ?E = "insert (u, v) (insert (v, u) E)"
  assume sp: "simple_path ?E a b p"
  with ab v have "v \<notin> set p"
    using leaf_not_inner [OF sub v, of u p] by (auto simp: simple_path_def)
  with sp have "path E p"
    using path_restrict [of ?E p v E] by (auto simp: simple_path_def)
  with sp show "simple_path E a b p"
    by (simp add: simple_path_def)
next
  assume "simple_path E a b p"
  then show "simple_path (insert (u, v) (insert (v, u) E)) a b p"
    by (auto simp: simple_path_def intro: path_mono)
qed

lemma leaf_paths_new:
  assumes sub: "E \<subseteq> V \<times> V" and v: "v \<notin> V" and u: "u \<in> V" and b: "b \<in> V"
  shows "simple_path (insert (u, v) (insert (v, u) E)) v b p \<longleftrightarrow>
           (\<exists>q. p = v # q \<and> simple_path E u b q)"
proof
  let ?E = "insert (u, v) (insert (v, u) E)"
  assume sp: "simple_path ?E v b p"
  then obtain q where p: "p = v # q"
    by (cases p) (auto simp: simple_path_def)
  from sp p b v have q: "q \<noteq> []"
    by (auto simp: simple_path_def)
  with sp p have "path ?E q" "(v, hd q) \<in> ?E" "last q = b" "distinct q" "v \<notin> set q"
    by (auto simp: simple_path_def path_Cons)
  moreover from this sub v have "hd q = u"
    by auto
  moreover from \<open>path ?E q\<close> \<open>v \<notin> set q\<close> have "path E q"
    using path_restrict [of ?E q v E] by auto
  ultimately have "simple_path E u b q"
    by (simp add: simple_path_def)
  with p show "\<exists>q. p = v # q \<and> simple_path E u b q"
    by blast
next
  assume "\<exists>q. p = v # q \<and> simple_path E u b q"
  then obtain q where p: "p = v # q" and q: "simple_path E u b q"
    by blast
  then have ne: "q \<noteq> []"
    by (auto simp: simple_path_def)
  from q sub u have "set q \<subseteq> V"
    using path_vertices [of E q V] by (simp add: simple_path_def)
  with v have "v \<notin> set q"
    by auto
  moreover from q have "path (insert (u, v) (insert (v, u) E)) q"
    by (auto simp: simple_path_def intro: path_mono)
  ultimately show "simple_path (insert (u, v) (insert (v, u) E)) v b p"
    using p q ne by (simp add: simple_path_def path_Cons)
qed

lemma is_tree_unique_path:
  "is_tree V E \<Longrightarrow> a \<in> V \<Longrightarrow> b \<in> V \<Longrightarrow> \<exists>!p. simple_path E a b p"
proof (induction arbitrary: a b rule: is_tree.induct)
  case (single v)
  then show ?case
    by (simp add: simple_path_refl)
next
  case (extend V E u v)
  let ?E = "insert (u, v) (insert (v, u) E)"
  from extend have sub: "E \<subseteq> V \<times> V"
    by (simp add: is_tree_edges)
  have sym: "(c, d) \<in> ?E \<Longrightarrow> (d, c) \<in> ?E" for c d
    using is_tree_sym [OF extend.hyps(1)] by auto
  have new: "\<exists>!p. simple_path ?E v c p" if c: "c \<in> V" for c
  proof -
    from extend.IH [OF extend.hyps(2) c] obtain q
      where q: "simple_path E u c q" and uq: "\<And>q'. simple_path E u c q' \<Longrightarrow> q' = q"
      by blast
    show ?thesis
    proof (rule ex1I)
      show "simple_path ?E v c (v # q)"
        using q leaf_paths_new [OF sub extend.hyps(3,2) c] by blast
    next
      fix p
      assume "simple_path ?E v c p"
      then obtain q' where "p = v # q'" "simple_path E u c q'"
        using leaf_paths_new [OF sub extend.hyps(3,2) c] by blast
      with uq show "p = v # q"
        by simp
    qed
  qed
  show ?case
  proof (cases "a = v")
    case av: True
    show ?thesis
    proof (cases "b = v")
      case True
      with av show ?thesis
        by (simp add: simple_path_refl)
    next
      case False
      with extend.prems have "b \<in> V" by simp
      with av show ?thesis
        by (simp add: new)
    qed
  next
    case av: False
    with extend.prems have a: "a \<in> V" by simp
    show ?thesis
    proof (cases "b = v")
      case True
      have "\<exists>!p. simple_path ?E a v p"
        by (rule simple_path_unique_rev [OF sym new [OF a]])
      with True show ?thesis
        by simp
    next
      case False
      with extend.prems have b: "b \<in> V" by simp
      from extend.IH [OF a b] show ?thesis
        by (simp add: leaf_paths_old [OF sub extend.hyps(3) a b])
    qed
  qed
qed

subsection \<open>The reset at the start of generate\<close>

lemma reset_dims [simp]: "width (reset m) = width m" "height (reset m) = height m"
  by (simp_all add: reset_def)

lemma in_grid_reset [simp]: "in_grid (reset m) = in_grid m"
  by (simp add: in_grid_def fun_eq_iff)

lemma maze_wf_reset: "maze_wf m \<Longrightarrow> maze_wf (reset m)"
  by (simp add: maze_wf_def reset_def list_all_length)

lemma mask_at_reset:
  assumes "maze_wf m" "in_grid m c"
  shows "mask_at (reset m) c = 15"
proof -
  from assms have "nat (snd c) < length (grid m)" "nat (fst c) < length (grid m ! nat (snd c))"
    using in_grid_nat [of m c] by (simp_all add: maze_wf_def list_all_length)
  then show ?thesis
    by (simp add: mask_at_def reset_def)
qed

lemma vis_at_reset:
  assumes "maze_wf m" "in_grid m c"
  shows "\<not> vis_at (reset m) c"
proof -
  from assms have "nat (snd c) < length (visited m)"
    "nat (fst c) < length (visited m ! nat (snd c))"
    using in_grid_nat [of m c] by (simp_all add: maze_wf_def list_all_length)
  then show ?thesis
    by (simp add: vis_at_def reset_def)
qed

lemma visited_cells_reset: "maze_wf m \<Longrightarrow> visited_cells (reset m) = {}"
  by (auto simp: visited_cells_def vis_at_reset)

lemma unvisited_cells_reset: "maze_wf m \<Longrightarrow> unvisited_cells (reset m) = {c. in_grid m c}"
  by (auto simp: unvisited_cells_def vis_at_reset)

lemma bit_mask_at_reset:
  assumes "maze_wf m" "in_grid m c" "w < 4"
  shows "bit (mask_at (reset m) c) w"
  using assms by (simp only: mask_at_reset bit_15)

lemma edges_reset: "maze_wf m \<Longrightarrow> edges (reset m) = {}"
  unfolding edges_def using bit_mask_at_reset [of m] by auto

lemma walls_ok_reset: "maze_wf m \<Longrightarrow> walls_ok (reset m)"
  unfolding walls_ok_def using bit_mask_at_reset [of m] opposite_less by auto

lemma cells_eq: "{c. in_grid m c} = {0..<width m} \<times> {0..<height m}"
  by (auto simp: in_grid_def)

lemma card_cells: "card {c. in_grid m c} = nat (width m) * nat (height m)"
  by (simp add: cells_eq card_cartesian_product)

lemma generate_reset: "generate ch fuel (k, m) = generate_rec ch fuel (k, reset m) 0 0"
  by (simp add: generate_def reset_def)

subsection \<open>A traversal from the origin visits every cell\<close>

lemma closed_all_cells:
  assumes origin: "(0, 0) \<in> V"
    and closed: "\<And>c w. c \<in> V \<Longrightarrow> w < 4 \<Longrightarrow> in_grid m (neighbour w c) \<Longrightarrow> neighbour w c \<in> V"
    and c: "in_grid m c"
  shows "c \<in> V"
proof -
  have row: "in_grid m (int a, 0) \<Longrightarrow> (int a, 0) \<in> V" for a
  proof (induction a)
    case 0
    with origin show ?case by simp
  next
    case (Suc a)
    then have "in_grid m (int a, 0)"
      by (simp add: in_grid_def)
    with Suc have "(int a, 0) \<in> V"
      by simp
    moreover have "neighbour 3 (int a, 0) = (int (Suc a), 0)"
      by (simp add: neighbour_simps)
    ultimately show ?case
      using closed [of "(int a, 0)" 3] Suc.prems by simp
  qed
  have col: "in_grid m (int a, int b) \<Longrightarrow> (int a, int b) \<in> V" for a b
  proof (induction b)
    case 0
    with row show ?case by simp
  next
    case (Suc b)
    then have "in_grid m (int a, int b)"
      by (simp add: in_grid_def)
    with Suc have "(int a, int b) \<in> V"
      by simp
    moreover have "neighbour 2 (int a, int b) = (int a, int (Suc b))"
      by (simp add: neighbour_simps)
    ultimately show ?case
      using closed [of "(int a, int b)" 2] Suc.prems by simp
  qed
  from c have "c = (int (nat (fst c)), int (nat (snd c)))"
    by (simp add: in_grid_def)
  with c col [of "nat (fst c)" "nat (snd c)"] show ?thesis
    by simp
qed

subsection \<open>Wall bits and the flags of cell_at\<close>

lemma ex_wall: "(\<exists>w<4. P w) \<longleftrightarrow> P 0 \<or> P (Suc 0) \<or> P 2 \<or> P (3 :: nat)"
proof
  assume "\<exists>w<4. P w"
  then obtain w where "w < 4" "P w" by blast
  then show "P 0 \<or> P (Suc 0) \<or> P 2 \<or> P 3"
    using wall_cases [of w] by auto
next
  assume *: "P 0 \<or> P (Suc 0) \<or> P 2 \<or> P 3"
  have "(0 :: nat) < 4" "Suc 0 < 4" "(2 :: nat) < 4" "(3 :: nat) < 4"
    by simp_all
  with * show "\<exists>w<4. P w"
    by blast
qed

lemma walls_ok_bit:
  assumes "walls_ok m" "in_grid m c" "w < 4" "in_grid m (neighbour w c)"
  shows "bit (mask_at m (neighbour w c)) (opposite w) = bit (mask_at m c) w"
  using assms unfolding walls_ok_def by metis

lemma walls_ok_edge:
  assumes "walls_ok m" "in_grid m c" "w < 4" "\<not> in_grid m (neighbour w c)"
  shows "bit (mask_at m c) w"
  using assms unfolding walls_ok_def by metis

lemma passage_edges:
  assumes wf: "maze_wf m" and ok: "walls_ok m"
  shows "passage m a b \<longleftrightarrow> (a, b) \<in> edges m"
proof (cases "in_grid m a \<and> in_grid m b")
  case False
  then show ?thesis
    by (auto simp: passage_def edges_def)
next
  case True
  then have a: "in_grid m (fst a, snd a)" and b: "in_grid m (fst b, snd b)"
    by simp_all
  have sym: "b = neighbour w a \<Longrightarrow> bit (mask_at m b) (opposite w) = bit (mask_at m a) w"
    if "w < 4" for w
    using walls_ok_bit [OF ok _ that, of a] True by simp
  note s = sym [of 0] sym [of "Suc 0"] sym [of 2] sym [of 3]
  have "passage m a b \<longleftrightarrow>
      b = neighbour 3 a \<and> \<not> bit (mask_at m a) 3 \<and> \<not> bit (mask_at m b) 1 \<or>
      b = neighbour (Suc 0) a \<and> \<not> bit (mask_at m a) 1 \<and> \<not> bit (mask_at m b) 3 \<or>
      b = neighbour 2 a \<and> \<not> bit (mask_at m a) 2 \<and> \<not> bit (mask_at m b) 0 \<or>
      b = neighbour 0 a \<and> \<not> bit (mask_at m a) 0 \<and> \<not> bit (mask_at m b) 2"
    using True by (simp add: passage_def cell_at_in_grid [OF wf a] cell_at_in_grid [OF wf b]
        neighbour_simps)
  also have "\<dots> \<longleftrightarrow>
      b = neighbour 3 a \<and> \<not> bit (mask_at m a) 3 \<or>
      b = neighbour (Suc 0) a \<and> \<not> bit (mask_at m a) (Suc 0) \<or>
      b = neighbour 2 a \<and> \<not> bit (mask_at m a) 2 \<or>
      b = neighbour 0 a \<and> \<not> bit (mask_at m a) 0"
    using s by (auto simp: opposite_simps)
  also have "\<dots> \<longleftrightarrow> (\<exists>w<4. b = neighbour w a \<and> \<not> bit (mask_at m a) w)"
    unfolding ex_wall by blast
  also have "\<dots> \<longleftrightarrow> (a, b) \<in> edges m"
    using True by (simp add: edges_def)
  finally show ?thesis .
qed

lemma passages_edges: "maze_wf m \<Longrightarrow> walls_ok m \<Longrightarrow> passages m = edges m"
  by (auto simp: passages_def passage_edges)

lemma walls_ok_symmetry:
  assumes wf: "maze_wf m" and ok: "walls_ok m"
  shows "wall_symmetry m"
proof -
  have "bit (mask_at m (x, y)) 3 = bit (mask_at m (x + 1, y)) 1"
    if "in_grid m (x, y)" "in_grid m (x + 1, y)" for x y
    using walls_ok_bit [OF ok that(1), of 3] that(2) by (simp add: neighbour_simps opposite_simps)
  moreover have "bit (mask_at m (x, y)) 2 = bit (mask_at m (x, y + 1)) 0"
    if "in_grid m (x, y)" "in_grid m (x, y + 1)" for x y
    using walls_ok_bit [OF ok that(1), of 2] that(2) by (simp add: neighbour_simps opposite_simps)
  ultimately show ?thesis
    unfolding wall_symmetry_def by (simp add: cell_at_in_grid [OF wf])
qed

subsection \<open>Counting the cleared wall-pairs\<close>

lemma edges_sym:
  assumes ok: "walls_ok m" and e: "(a, b) \<in> edges m"
  shows "(b, a) \<in> edges m"
proof -
  from e obtain w where w: "w < 4" "b = neighbour w a" "\<not> bit (mask_at m a) w"
    and ab: "in_grid m a" "in_grid m b"
    by (auto simp: edges_def)
  from ok ab w have "\<not> bit (mask_at m b) (opposite w)"
    using walls_ok_bit [of m a w] by simp
  moreover from w have "a = neighbour (opposite w) b" "opposite w < 4"
    by (simp_all add: neighbour_opposite opposite_less)
  ultimately show ?thesis
    using ab unfolding edges_def by blast
qed

lemma cleared_wall_pairs_card:
  assumes wf: "maze_wf m" and ok: "walls_ok m" and fin: "finite (edges m)"
  shows "card (edges m) = 2 * card (cleared_wall_pairs m)"
proof -
  let ?P = "cleared_wall_pairs m"
  have P: "?P = {(a, b). (a, b) \<in> edges m \<and> (b = neighbour 3 a \<or> b = neighbour 2 a)}"
    using wf ok by (auto simp: cleared_wall_pairs_def passage_edges neighbour_simps)
  have "(a, b) \<in> ?P \<or> (b, a) \<in> ?P" if e: "(a, b) \<in> edges m" for a b
  proof -
    from e obtain w where w: "w < 4" "b = neighbour w a"
      by (auto simp: edges_def)
    from w consider "w = 0" | "w = Suc 0" | "w = 2" | "w = 3"
      using wall_cases [of w] by auto
    then show ?thesis
    proof cases
      case 1
      with w have "a = neighbour 2 b"
        by (simp add: neighbour_simps)
      with e ok show ?thesis
        by (auto simp: P edges_sym)
    next
      case 2
      with w have "a = neighbour 3 b"
        by (simp add: neighbour_simps)
      with e ok show ?thesis
        by (auto simp: P edges_sym)
    next
      case 3
      with w e show ?thesis by (simp add: P)
    next
      case 4
      with w e show ?thesis by (simp add: P)
    qed
  qed
  moreover have "?P \<subseteq> edges m" "?P\<inverse> \<subseteq> edges m"
    using ok by (auto simp: P edges_sym)
  ultimately have un: "edges m = ?P \<union> ?P\<inverse>"
    by auto
  have dis: "?P \<inter> ?P\<inverse> = {}"
    by (auto simp: P neighbour_simps)
  from un fin have "finite ?P" "finite (?P\<inverse>)"
    by (metis finite_Un)+
  then have "card (?P \<union> ?P\<inverse>) = card ?P + card (?P\<inverse>)"
    using dis by (rule card_Un_disjoint)
  with un show ?thesis
    by (simp add: card_inverse)
qed

lemma tree_spanning:
  assumes wf: "maze_wf m" and ok: "walls_ok m"
    and pos: "1 \<le> width m" "1 \<le> height m"
    and tree: "is_tree {c. in_grid m c} (edges m)"
  shows "spanning_tree m"
proof -
  from tree have "card (edges m) = 2 * (card {c. in_grid m c} - 1)" "finite (edges m)"
    by (simp_all add: is_tree_card is_tree_finite)
  with wf ok have "card (cleared_wall_pairs m) = nat (width m) * nat (height m) - 1"
    by (simp add: cleared_wall_pairs_card card_cells)
  moreover from pos have "1 \<le> nat (width m) * nat (height m)"
    by (simp add: Suc_le_eq)
  ultimately have "int (card (cleared_wall_pairs m)) = width m * height m - 1"
    using pos by (simp add: of_nat_diff)
  moreover have "\<exists>!p. simple_path (passages m) a b p" if "in_grid m a" "in_grid m b" for a b
    using that tree wf ok by (simp add: passages_edges is_tree_unique_path)
  ultimately show ?thesis
    unfolding spanning_tree_def by blast
qed

subsection \<open>generate\<close>

lemma generate_traversed:
  assumes wf: "maze_wf m" and ch: "shuffle_outcomes ch" and pos: "1 \<le> width m" "1 \<le> height m"
  shows "nat (width m * height m) \<le> fuel \<Longrightarrow> generate ch fuel (k, m) \<noteq> None"
    and "generate ch fuel (k, m) = Some r \<Longrightarrow>
         \<exists>k' m'. r = Inr (k', m') \<and> maze_wf m' \<and> width m' = width m \<and>
           height m' = height m \<and> walls_ok m' \<and> is_tree {c. in_grid m' c} (edges m')"
proof -
  let ?m0 = "reset m"
  from wf have wf0: "maze_wf ?m0" and ok0: "walls_ok ?m0"
    and v0: "visited_cells ?m0 = {}" and e0: "edges ?m0 = {}"
    by (simp_all add: maze_wf_reset walls_ok_reset visited_cells_reset edges_reset)
  from pos have origin: "in_grid ?m0 (0, 0)"
    by (simp add: in_grid_def)
  have "is_tree (insert (0, 0) (visited_cells ?m0)) (edges ?m0)"
    by (simp add: v0 e0 is_tree.single)
  with ch wf0 ok0 origin v0 have post: "rec_post ch fuel k ?m0 0 0"
    using rec_ok [of ch fuel] unfolding rec_ok_def by simp
  from wf pos have "card (unvisited_cells ?m0) = nat (width m * height m)"
    by (simp add: unvisited_cells_reset card_cells nat_mult_distrib)
  with post show "nat (width m * height m) \<le> fuel \<Longrightarrow> generate ch fuel (k, m) \<noteq> None"
    unfolding rec_post_def generate_reset by simp
  assume "generate ch fuel (k, m) = Some r"
  with post obtain k' m' where r: "r = Inr (k', m')" and t: "traversed ?m0 m'"
    and o: "(0, 0) \<in> visited_cells m'"
    unfolding rec_post_def generate_reset by blast
  from t have g: "in_grid m' = in_grid m"
    using traversed_in_grid [of ?m0 m'] by simp
  have "c \<in> visited_cells m'" if "in_grid m' c" for c
    using o _ that
  proof (rule closed_all_cells)
    fix a w
    assume "a \<in> visited_cells m'" "w < 4" "in_grid m' (neighbour w a)"
    with t show "neighbour w a \<in> visited_cells m'"
      unfolding traversed_def v0 g by simp
  qed
  then have "visited_cells m' = {c. in_grid m' c}"
    by (auto simp: visited_cells_def)
  with t r show "\<exists>k' m'. r = Inr (k', m') \<and> maze_wf m' \<and> width m' = width m \<and>
           height m' = height m \<and> walls_ok m' \<and> is_tree {c. in_grid m' c} (edges m')"
    by (auto simp: traversed_def)
qed

lemma setitem2_empty:
  assumes "maze_wf m" "\<not> in_grid m (0, 0)"
  shows "setitem2 (visited m) 0 0 v = Inl IndexError"
proof (cases "height m = 0")
  case True
  with assms have "np_index (length (visited m)) 0 = Inl IndexError"
    by (simp add: maze_wf_def np_index_def)
  then show ?thesis
    by (simp add: setitem2_def)
next
  case False
  with assms have h: "0 < height m" and w: "width m = 0"
    by (auto simp: maze_wf_def in_grid_def)
  with assms have "np_index (length (visited m)) 0 = Inr 0"
    by (simp add: maze_wf_def np_index_def)
  moreover from assms h w have "length (visited m ! 0) = 0"
    by (simp add: maze_wf_visited_row)
  then have "np_index (length (visited m ! 0)) 0 = Inl IndexError"
    by (simp add: np_index_def)
  ultimately show ?thesis
    by (simp add: setitem2_def)
qed

lemma generate_empty:
  assumes "maze_wf m" "\<not> in_grid m (0, 0)"
  shows "generate ch (Suc n) (k, m) = Some (Inl IndexError)"
proof -
  from assms have "maze_wf (reset m)" "\<not> in_grid (reset m) (0, 0)"
    by (simp_all add: maze_wf_reset)
  then have "setitem2 (visited (reset m)) 0 0 True = Inl IndexError"
    by (rule setitem2_empty)
  then show ?thesis
    by (simp add: generate_reset)
qed

lemma generate_Inr:
  assumes wf: "maze_wf m" and ch: "shuffle_outcomes ch"
    and g: "generate ch fuel (k, m) = Some (Inr (k', m'))"
  shows "maze_wf m' \<and> walls_ok m' \<and> width m' = width m \<and> height m' = height m"
proof (cases "in_grid m (0, 0)")
  case True
  then have "1 \<le> width m" "1 \<le> height m"
    by (simp_all add: in_grid_def)
  from generate_traversed(2) [OF wf ch this g] show ?thesis
    by auto
next
  case False
  with wf g show ?thesis
    using generate_empty [of m ch _ k] by (cases fuel) (simp_all add: generate_reset)
qed

lemma Maze_init_walls_ok:
  assumes "Maze_init w h = Inr m"
  shows "walls_ok m"
proof -
  from assms have wf: "maze_wf m"
    by (simp add: Maze_init_wf)
  from assms have "grid m = grid (reset m)"
    by (auto simp: Maze_init_def reset_def split: if_splits)
  then have "mask_at m = mask_at (reset m)"
    by (simp add: mask_at_def fun_eq_iff)
  with walls_ok_reset [OF wf] show ?thesis
    by (simp add: walls_ok_def)
qed

lemma maze_object_invariant: "maze_object m \<Longrightarrow> maze_wf m \<and> walls_ok m"
proof (induction rule: maze_object.induct)
  case (constructed w h m)
  then show ?case
    by (simp add: Maze_init_wf Maze_init_walls_ok)
next
  case (generated m ch fuel k k' m')
  then show ?case
    using generate_Inr [of m ch fuel k k' m'] by simp
qed

lemma no_shuffle_outcomes: "shuffle_outcomes no_shuffle"
  by (simp add: shuffle_outcomes_def no_shuffle_def wall_numbers_and_offsets_def)

lemma wide_maze_wf: "maze_wf wide_maze"
  by (simp add: maze_wf_def wide_maze_def)

lemma generate_wide_maze:
  "generate no_shuffle (Suc (Suc 0)) (0, wide_maze) = Some (Inr (2, wide_maze_generated))"
  by (simp add: generate_def wide_maze_def wide_maze_generated_def no_shuffle_def
      wall_numbers_and_offsets_def setitem2_def getitem2_def np_index_def clear_mask_def Let_def)

subsection \<open>The generated maze\<close>

text \<open>
  Claim C1: for every maze of width and height at least 1 and every outcome of the
  shuffles, \<open>generate\<close> returns (given a bound on the depth of the recursion of at least
  the number of cells) and raises nothing; the maze it leaves is a spanning tree of the
  grid: exactly \<open>width * height - 1\<close> wall-pairs are cleared, and any two cells are joined
  by exactly one simple path.
\<close>

theorem generate_spanning_tree:
  assumes "maze_wf m" "1 \<le> width m" "1 \<le> height m"
    and "shuffle_outcomes ch" "nat (width m * height m) \<le> fuel"
  shows "\<exists>k' m'. generate ch fuel (k, m) = Some (Inr (k', m')) \<and>
           width m' = width m \<and> height m' = height m \<and> spanning_tree m'"
proof -
  from assms obtain r where r: "generate ch fuel (k, m) = Some r"
    using generate_traversed(1) [of m ch fuel k] by auto
  with assms obtain k' m' where "r = Inr (k', m')" "maze_wf m'" "width m' = width m"
    "height m' = height m" "walls_ok m'" "is_tree {c. in_grid m' c} (edges m')"
    using generate_traversed(2) [of m ch fuel k r] by blast
  with r assms(2,3) show ?thesis
    using tree_spanning [of m'] by simp
qed

theorem generate_spanning_tree_witness:
  "maze_wf wide_maze \<and> shuffle_outcomes no_shuffle \<and>
   (\<exists>k' m'. generate no_shuffle 2 (0, wide_maze) = Some (Inr (k', m')) \<and>
      width m' = 2 \<and> height m' = 1 \<and> spanning_tree m')"
  using generate_spanning_tree [of wide_maze no_shuffle 2 0] wide_maze_wf no_shuffle_outcomes
  by (simp add: wide_maze_def)

text \<open>
  Claim C2: in every maze object, as constructed and after any number of calls of
  \<open>generate\<close> that return, two horizontally or vertically adjacent cells report the same
  flag for the wall between them: \<open>cell_at(x, y).right = cell_at(x + 1, y).left\<close> and
  \<open>cell_at(x, y).bottom = cell_at(x, y + 1).top\<close>.
\<close>

theorem maze_object_wall_symmetry: "maze_object m \<Longrightarrow> wall_symmetry m"
  by (simp add: maze_object_invariant walls_ok_symmetry)

theorem maze_object_wall_symmetry_witness:
  "maze_object wide_maze_generated \<and> wall_symmetry wide_maze_generated"
proof -
  have "Maze_init 2 1 = Inr wide_maze"
    by (simp add: Maze_init_def wide_maze_def numeral_2_eq_2)
  then have "maze_object wide_maze"
    by (rule maze_object.constructed)
  then have "maze_object wide_maze_generated"
    using no_shuffle_outcomes generate_wide_maze by (rule maze_object.generated)
  with maze_object_wall_symmetry [of wide_maze_generated] show ?thesis
    by simp
qed

lemma two_cells_walls:
  assumes wf: "maze_wf m" and ok: "walls_ok m" and dims: "width m = 2" "height m = 1"
    and tree: "is_tree {c. in_grid m c} (edges m)"
  shows "\<exists>a b. cell_at m 0 0 = Inr a \<and> cell_at m 1 0 = Inr b \<and>
           \<not> cell_right a \<and> \<not> cell_left b \<and>
           cell_left a \<and> cell_top a \<and> cell_bottom a \<and>
           cell_right b \<and> cell_top b \<and> cell_bottom b"
proof -
  from dims have cells: "{c. in_grid m c} = {(0, 0), (1, 0)}"
    by (auto simp: in_grid_def)
  then have a: "in_grid m (0, 0)" and b: "in_grid m (1, 0)"
    by auto
  from cells have "card {c. in_grid m c} = 2"
    by simp
  with tree have card: "card (edges m) = 2"
    by (simp add: is_tree_card)
  have in2: "c = (0, 0) \<or> c = (1, 0)" if "in_grid m c" for c
    using that cells by blast
  have "edges m \<subseteq> {((0, 0), (1, 0)), ((1, 0), (0, 0))}"
  proof
    fix e
    assume e: "e \<in> edges m"
    obtain u v where uv: "e = (u, v)"
      by (cases e)
    with e obtain w where "w < 4" "v = neighbour w u" and g: "in_grid m u" "in_grid m v"
      unfolding edges_def by blast
    then have "v \<noteq> u"
      by (simp add: neighbour_neq)
    with in2 [OF g(1)] in2 [OF g(2)] uv show "e \<in> {((0, 0), (1, 0)), ((1, 0), (0, 0))}"
      by blast
  qed
  moreover have "((0, 0), (1, 0)) \<in> edges m \<longleftrightarrow> ((1, 0), (0, 0)) \<in> edges m"
    using ok by (auto intro: edges_sym)
  ultimately have "edges m = {} \<or> ((0, 0), (1, 0)) \<in> edges m"
    by blast
  with card have "((0, 0), (1, 0)) \<in> edges m"
    by auto
  then have "passage m (0, 0) (1, 0)"
    using wf ok by (simp add: passage_edges)
  then have open_wall: "\<not> bit (mask_at m (0, 0)) 3" "\<not> bit (mask_at m (1, 0)) 1"
    by (simp_all add: passage_def cell_at_in_grid [OF wf a] cell_at_in_grid [OF wf b])
  have out: "\<not> in_grid m (neighbour 0 (0, 0))" "\<not> in_grid m (neighbour (Suc 0) (0, 0))"
    "\<not> in_grid m (neighbour 2 (0, 0))" "\<not> in_grid m (neighbour 0 (1, 0))"
    "\<not> in_grid m (neighbour 2 (1, 0))" "\<not> in_grid m (neighbour 3 (1, 0))"
    using dims by (simp_all add: neighbour_simps in_grid_def)
  have "bit (mask_at m (0, 0)) 0" "bit (mask_at m (0, 0)) (Suc 0)" "bit (mask_at m (0, 0)) 2"
    "bit (mask_at m (1, 0)) 0" "bit (mask_at m (1, 0)) 2" "bit (mask_at m (1, 0)) 3"
    using out a b by (simp_all add: walls_ok_edge [OF ok])
  with open_wall show ?thesis
    by (simp add: cell_at_in_grid [OF wf a] cell_at_in_grid [OF wf b])
qed

text \<open>
  Claim C7, as the code has it: after \<open>Maze(2, 1).generate()\<close>, for every outcome of the
  shuffles, both \<open>cell_at(0, 0).right\<close> and \<open>cell_at(1, 0).left\<close> are false (the two
  sides of the one open wall), and all outer walls of both cells are true.
\<close>

theorem generate_wide_maze_walls:
  assumes "shuffle_outcomes ch" "2 \<le> fuel"
  shows "\<exists>k' m' a b. generate ch fuel (k, wide_maze) = Some (Inr (k', m')) \<and>
           cell_at m' 0 0 = Inr a \<and> cell_at m' 1 0 = Inr b \<and>
           \<not> cell_right a \<and> \<not> cell_left b \<and>
           cell_left a \<and> cell_top a \<and> cell_bottom a \<and>
           cell_right b \<and> cell_top b \<and> cell_bottom b"
proof -
  have dims: "width wide_maze = 2" "height wide_maze = 1"
    by (simp_all add: wide_maze_def)
  with assms obtain r where r: "generate ch fuel (k, wide_maze) = Some r"
    using generate_traversed(1) [OF wide_maze_wf assms(1), of fuel k] by auto
  with assms dims obtain k' m' where "r = Inr (k', m')" "maze_wf m'" "width m' = 2"
    "height m' = 1" "walls_ok m'" "is_tree {c. in_grid m' c} (edges m')"
    using generate_traversed(2) [OF wide_maze_wf assms(1), of fuel k r] by auto
  with r two_cells_walls [of m'] show ?thesis
    by blast
qed

theorem generate_wide_maze_walls_witness:
  "shuffle_outcomes no_shuffle \<and>
   (\<exists>k' m' a b. generate no_shuffle 2 (0, wide_maze) = Some (Inr (k', m')) \<and>
      cell_at m' 0 0 = Inr a \<and> cell_at m' 1 0 = Inr b \<and>
      \<not> cell_right a \<and> \<not> cell_left b \<and>
      cell_left a \<and> cell_top a \<and> cell_bottom a \<and>
      cell_right b \<and> cell_top b \<and> cell_bottom b)"
  using generate_wide_maze_walls [of no_shuffle 2 0] no_shuffle_outcomes by simp

text \<open>
  With the shuffle that leaves every list in its order, \<open>Maze(2, 1).generate()\<close> leaves
  both flags of the shared wall false, not exactly one of them.
\<close>

theorem generate_wide_maze_counterexample:
  "generate no_shuffle (Suc (Suc 0)) (0, wide_maze) = Some (Inr (2, wide_maze_generated)) \<and>
   cell_at wide_maze_generated 0 0 =
     Inr \<lparr>cell_x = 0, cell_y = 0, cell_left = True, cell_right = False,
          cell_top = True, cell_bottom = True\<rparr> \<and>
   cell_at wide_maze_generated 1 0 =
     Inr \<lparr>cell_x = 1, cell_y = 0, cell_left = False, cell_right = True,
          cell_top = True, cell_bottom = True\<rparr>"
  by (simp add: generate_def wide_maze_def wide_maze_generated_def no_shuffle_def
      wall_numbers_and_offsets_def setitem2_def getitem2_def np_index_def clear_mask_def Let_def
      cell_at_def)

end
